theory Spec2Isabelle
  imports Main
begin

section \<open>The modify action of r10k-deployerjs (lib/git/modify\_action.js)\<close>

text \<open>
  The file embeds \<^verbatim>\<open>runModify\<close>, the handler of a "modify" event: the regular
  expression it builds from the module's repository URL, the two library operations it
  applies to the Puppetfile text (\<^verbatim>\<open>RegExp.prototype.exec\<close> and
  \<^verbatim>\<open>String.prototype.replace\<close>), and the sequence of calls to its collaborators
  (git utilities, file system, Rundeck) with the \<^verbatim>\<open>try\<close>/\<^verbatim>\<open>catch\<close> around it.

  A JavaScript string is modelled as a \<^typ>\<open>string\<close>: a list of code units below 256.
  Within that alphabet the white space class \<^verbatim>\<open>\s\<close> is TAB, LF, VT, FF, CR, SPACE and
  NBSP, and the line terminators are LF and CR.
\<close>

subsection \<open>Character classes of the pattern\<close>

definition is_quote :: "char \<Rightarrow> bool" where
  "is_quote c = (c = CHR 0x27 \<or> c = CHR 0x22)"

definition is_line_terminator :: "char \<Rightarrow> bool" where
  "is_line_terminator c = (c = CHR 0x0A \<or> c = CHR 0x0D)"

definition is_space :: "char \<Rightarrow> bool" where
  "is_space c = (c = CHR 0x09 \<or> c = CHR 0x0A \<or> c = CHR 0x0B \<or> c = CHR 0x0C \<or>
                 c = CHR 0x0D \<or> c = CHR 0x20 \<or> c = CHR 0xA0)"

text \<open>
  \<open>Lit c\<close> is a pattern character, \<open>Dot\<close> is \<^verbatim>\<open>.\<close> (no flag \<^verbatim>\<open>s\<close>: any
  code unit but a line terminator), \<open>QuoteC\<close> is \<^verbatim>\<open>['"]\<close>, \<open>SpaceC\<close> is
  \<^verbatim>\<open>\s\<close> and \<open>NotQuote\<close> is \<^verbatim>\<open>[^'"]\<close>.
\<close>

datatype cls = Lit char | Dot | QuoteC | SpaceC | NotQuote

fun cls_match :: "cls \<Rightarrow> char \<Rightarrow> bool" where
  "cls_match (Lit c) x = (x = c)"
| "cls_match Dot x = (\<not> is_line_terminator x)"
| "cls_match QuoteC x = is_quote x"
| "cls_match SpaceC x = is_space x"
| "cls_match NotQuote x = (\<not> is_quote x)"

subsection \<open>A backtracking matcher\<close>

text \<open>
  The terms of the pattern: one code unit of a class, a greedy \<^verbatim>\<open>*\<close> or \<^verbatim>\<open>+\<close> of a
  class, and the assertion \<^verbatim>\<open>$\<close> under the flag \<^verbatim>\<open>m\<close> (the end of the input, or a
  line terminator next).
\<close>

datatype item = One cls | Star cls | Plus cls | Eol

definition at_eol :: "string \<Rightarrow> bool" where
  "at_eol s = (case s of [] \<Rightarrow> True | x # _ \<Rightarrow> is_line_terminator x)"

text \<open>
  \<open>alts p s\<close> lists the ways the sequence \<open>p\<close> matches a prefix of \<open>s\<close>, as pairs of
  the text consumed and the text left, in the order a backtracking matcher tries them:
  a greedy quantifier takes one more code unit first and gives it back only when
  everything after it has failed.
\<close>

fun alts :: "item list \<Rightarrow> string \<Rightarrow> (string \<times> string) list" where
  "alts [] s = [([], s)]"
| "alts (One c # p) [] = []"
| "alts (One c # p) (x # xs) =
     (if cls_match c x then map (\<lambda>(m, t). (x # m, t)) (alts p xs) else [])"
| "alts (Star c # p) [] = alts p []"
| "alts (Star c # p) (x # xs) =
     (if cls_match c x
      then map (\<lambda>(m, t). (x # m, t)) (alts (Star c # p) xs) @ alts p (x # xs)
      else alts p (x # xs))"
| "alts (Plus c # p) [] = []"
| "alts (Plus c # p) (x # xs) =
     (if cls_match c x then map (\<lambda>(m, t). (x # m, t)) (alts (Star c # p) xs) else [])"
| "alts (Eol # p) s = (if at_eol s then alts p s else [])"

text \<open>
  A pattern of the shape \<^verbatim>\<open>(p1)(p2)(p3)$\<close>: three capturing groups that follow each
  other, then the end-of-line assertion.
\<close>

record regex =
  group1 :: "item list"
  group2 :: "item list"
  group3 :: "item list"

text \<open>A match: the text before it, the three captures, the text after it.\<close>

record hit =
  before :: string
  cap1 :: string
  cap2 :: string
  cap3 :: string
  after :: string

definition matched :: "hit \<Rightarrow> string" where
  "matched h = cap1 h @ cap2 h @ cap3 h"

text \<open>The first way, in backtracking order, the whole pattern matches at the start of \<open>s\<close>.\<close>

definition match_here :: "regex \<Rightarrow> string \<Rightarrow> (string \<times> string \<times> string \<times> string) option" where
  "match_here rx s =
     (case concat (map (\<lambda>(a, s1).
             concat (map (\<lambda>(b, s2).
               concat (map (\<lambda>(c, s3).
                 map (\<lambda>(e, s4). (a, b, c, s4)) (alts [Eol] s3))
               (alts (group3 rx) s2)))
             (alts (group2 rx) s1)))
           (alts (group1 rx) s)) of
        [] \<Rightarrow> None
      | m # _ \<Rightarrow> Some m)"

text \<open>
  \<^verbatim>\<open>exec\<close> with the text \<open>pre\<close> already behind \<open>lastIndex\<close>: the match at the
  leftmost position at or after it, every position up to the end of the input tried.
\<close>

fun exec_from :: "regex \<Rightarrow> string \<Rightarrow> string \<Rightarrow> hit option" where
  "exec_from rx pre [] =
     (case match_here rx [] of
        Some (a, b, c, t) \<Rightarrow> Some \<lparr>before = pre, cap1 = a, cap2 = b, cap3 = c, after = t\<rparr>
      | None \<Rightarrow> None)"
| "exec_from rx pre (x # xs) =
     (case match_here rx (x # xs) of
        Some (a, b, c, t) \<Rightarrow> Some \<lparr>before = pre, cap1 = a, cap2 = b, cap3 = c, after = t\<rparr>
      | None \<Rightarrow> exec_from rx (pre @ [x]) xs)"

text \<open>\<^verbatim>\<open>regex.exec(content)\<close> on a regex just built: \<open>lastIndex\<close> is 0.\<close>

definition exec :: "regex \<Rightarrow> string \<Rightarrow> hit option" where
  "exec rx s = exec_from rx [] s"

subsection \<open>\<^verbatim>\<open>String.prototype.replace\<close> with a global regex and a string template\<close>

definition is_digit :: "char \<Rightarrow> bool" where
  "is_digit c = (48 \<le> (of_char c :: nat) \<and> (of_char c :: nat) \<le> 57)"

definition digit_val :: "char \<Rightarrow> nat" where
  "digit_val c = of_char c - 48"

text \<open>The capture a one- or two-digit index names, when the pattern has that group.\<close>

definition capture :: "hit \<Rightarrow> nat \<Rightarrow> string option" where
  "capture h n =
     (if n = 1 then Some (cap1 h) else if n = 2 then Some (cap2 h)
      else if n = 3 then Some (cap3 h) else None)"

text \<open>
  \<^verbatim>\<open>GetSubstitution\<close> of ECMAScript for a pattern with three groups and no named
  group: \<^verbatim>\<open>$$\<close> is a dollar sign, \<^verbatim>\<open>$&\<close> the match, \<^verbatim>\<open>$`\<close> the text before
  it, \<^verbatim>\<open>$'\<close> the text after it, \<^verbatim>\<open>$n\<close> and \<^verbatim>\<open>$nn\<close> a capture. A two-digit
  index beyond the number of groups is read as a one-digit index followed by a digit;
  an index that names no group leaves the text as it is.
\<close>

fun get_substitution :: "hit \<Rightarrow> string \<Rightarrow> string" where
  "get_substitution h [] = []"
| "get_substitution h [c] = [c]"
| "get_substitution h (c # d # t) =
     (if c \<noteq> CHR ''$'' then c # get_substitution h (d # t)
      else if d = CHR ''$'' then CHR ''$'' # get_substitution h t
      else if d = CHR ''&'' then matched h @ get_substitution h t
      else if d = CHR 0x60 then before h @ get_substitution h t
      else if d = CHR 0x27 then after h @ get_substitution h t
      else if is_digit d then
        (case t of
           [] \<Rightarrow> (case capture h (digit_val d) of Some g \<Rightarrow> g | None \<Rightarrow> [c, d])
         | e # t' \<Rightarrow>
             if is_digit e \<and> 10 * digit_val d + digit_val e \<le> 3 then
               (case capture h (10 * digit_val d + digit_val e) of
                  Some g \<Rightarrow> g @ get_substitution h t'
                | None \<Rightarrow> c # d # e # get_substitution h t')
             else
               (case capture h (digit_val d) of
                  Some g \<Rightarrow> g @ get_substitution h (e # t')
                | None \<Rightarrow> c # d # get_substitution h (e # t')))
      else c # get_substitution h (d # t))"

text \<open>
  \<^verbatim>\<open>content.replace(regex, template)\<close> for a regex with the flag \<^verbatim>\<open>g\<close>: the
  operation sets \<open>lastIndex\<close> to 0 and then calls \<^verbatim>\<open>exec\<close> until it fails; each
  match is replaced by the expansion of the template, the text between matches is
  copied, and after an empty match \<open>lastIndex\<close> moves one code unit on.
  \<open>replace_from rx tmpl pre s\<close> is the result for the text \<open>s\<close> that follows \<open>pre\<close>.
\<close>

lemma alts_split: "(m, t) \<in> set (alts p s) \<Longrightarrow> s = m @ t"
  by (induction p s arbitrary: m t rule: alts.induct) (auto split: if_splits)

lemma match_here_split: "match_here rx s = Some (a, b, c, t) \<Longrightarrow> s = a @ b @ c @ t"
proof -
  assume "match_here rx s = Some (a, b, c, t)"
  then obtain rest where
    "concat (map (\<lambda>(a, s1).
             concat (map (\<lambda>(b, s2).
               concat (map (\<lambda>(c, s3).
                 map (\<lambda>(e, s4). (a, b, c, s4)) (alts [Eol] s3))
               (alts (group3 rx) s2)))
             (alts (group2 rx) s1)))
           (alts (group1 rx) s)) = (a, b, c, t) # rest"
    by (auto simp: match_here_def split: list.splits)
  then have "(a, b, c, t) \<in> set (concat (map (\<lambda>(a, s1).
             concat (map (\<lambda>(b, s2).
               concat (map (\<lambda>(c, s3).
                 map (\<lambda>(e, s4). (a, b, c, s4)) (alts [Eol] s3))
               (alts (group3 rx) s2)))
             (alts (group2 rx) s1)))
           (alts (group1 rx) s)))"
    by simp
  then obtain s1 s2 s3 e where
    "(a, s1) \<in> set (alts (group1 rx) s)" "(b, s2) \<in> set (alts (group2 rx) s1)"
    "(c, s3) \<in> set (alts (group3 rx) s2)" "(e, t) \<in> set (alts [Eol] s3)"
    by auto
  then have "s = a @ s1" "s1 = b @ s2" "s2 = c @ s3" "s3 = e @ t" "e = []"
    by (auto dest: alts_split split: if_splits)
  then show ?thesis by simp
qed

lemma exec_from_split:
  "exec_from rx pre s = Some h \<Longrightarrow> \<exists>k. before h = pre @ k \<and> s = k @ matched h @ after h"
proof (induction rx pre s rule: exec_from.induct)
  case (1 rx pre)
  then show ?case
    by (auto simp: matched_def split: option.splits dest: match_here_split)
next
  case (2 rx pre x xs)
  show ?case
  proof (cases "match_here rx (x # xs)")
    case None
    with 2 obtain k where "before h = (pre @ [x]) @ k" "xs = k @ matched h @ after h"
      by auto
    then have "before h = pre @ (x # k) \<and> x # xs = (x # k) @ matched h @ after h"
      by simp
    then show ?thesis by blast
  next
    case (Some m)
    with 2 show ?thesis
      by (cases m) (auto simp: matched_def dest: match_here_split)
  qed
qed

lemma exec_from_after_le: "exec_from rx pre s = Some h \<Longrightarrow> length (after h) \<le> length s"
  using exec_from_split [of rx pre s h] by auto

lemma exec_from_after_less:
  "exec_from rx pre s = Some h \<Longrightarrow> matched h \<noteq> [] \<Longrightarrow> length (after h) < length s"
  using exec_from_split [of rx pre s h] by auto

function replace_from :: "regex \<Rightarrow> string \<Rightarrow> string \<Rightarrow> string \<Rightarrow> string" where
  "replace_from rx tmpl pre s =
     (case exec_from rx pre s of
        None \<Rightarrow> s
      | Some h \<Rightarrow>
          drop (length pre) (before h) @ get_substitution h tmpl @
          (if matched h = [] then
             (case after h of
                [] \<Rightarrow> []
              | x # xs \<Rightarrow> x # replace_from rx tmpl (before h @ [x]) xs)
           else replace_from rx tmpl (before h @ matched h) (after h)))"
  by pat_completeness auto
termination
proof (relation "measure (\<lambda>(rx, tmpl, pre, s). length s)")
  show "wf (measure (\<lambda>(rx, tmpl, pre, s). length s))" by simp
next
  fix rx tmpl pre s h x xs
  assume "exec_from rx pre s = Some h" "after h = x # xs"
  then show "((rx, tmpl, before h @ [x], xs), (rx, tmpl, pre, s))
      \<in> measure (\<lambda>(rx, tmpl, pre, s). length s)"
    using exec_from_after_le [of rx pre s h] by simp
next
  fix rx tmpl pre s h
  assume "exec_from rx pre s = Some h" "matched h \<noteq> []"
  then show "((rx, tmpl, before h @ matched h, after h), (rx, tmpl, pre, s))
      \<in> measure (\<lambda>(rx, tmpl, pre, s). length s)"
    using exec_from_after_less [of rx pre s h] by simp
qed

declare replace_from.simps [simp del]

definition js_replace :: "string \<Rightarrow> regex \<Rightarrow> string \<Rightarrow> string" where
  "js_replace content rx tmpl = replace_from rx tmpl [] content"

text \<open>
  The same loop seen as a division of the text: the matches that the successive calls of
  \<^verbatim>\<open>exec\<close> find, and the stretches of text between them. \<open>text_of\<close> gives a piece as
  it stands in the text, \<open>expand\<close> as the replacement leaves it, and \<open>with_ref\<close> with
  the second capture exchanged for another reference.
\<close>

datatype seg = Gap string | Entry hit

function segments :: "regex \<Rightarrow> string \<Rightarrow> string \<Rightarrow> seg list" where
  "segments rx pre s =
     (case exec_from rx pre s of
        None \<Rightarrow> [Gap s]
      | Some h \<Rightarrow>
          Gap (drop (length pre) (before h)) # Entry h #
          (if matched h = [] then
             (case after h of
                [] \<Rightarrow> []
              | x # xs \<Rightarrow> Gap [x] # segments rx (before h @ [x]) xs)
           else segments rx (before h @ matched h) (after h)))"
  by pat_completeness auto
termination
proof (relation "measure (\<lambda>(rx, pre, s). length s)")
  show "wf (measure (\<lambda>(rx, pre, s). length s))" by simp
next
  fix rx pre s h x xs
  assume "exec_from rx pre s = Some h" "after h = x # xs"
  then show "((rx, before h @ [x], xs), (rx, pre, s)) \<in> measure (\<lambda>(rx, pre, s). length s)"
    using exec_from_after_le [of rx pre s h] by simp
next
  fix rx pre s h
  assume "exec_from rx pre s = Some h" "matched h \<noteq> []"
  then show "((rx, before h @ matched h, after h), (rx, pre, s))
      \<in> measure (\<lambda>(rx, pre, s). length s)"
    using exec_from_after_less [of rx pre s h] by simp
qed

declare segments.simps [simp del]

fun text_of :: "seg \<Rightarrow> string" where
  "text_of (Gap g) = g"
| "text_of (Entry h) = matched h"

fun expand :: "string \<Rightarrow> seg \<Rightarrow> string" where
  "expand tmpl (Gap g) = g"
| "expand tmpl (Entry h) = get_substitution h tmpl"

fun with_ref :: "string \<Rightarrow> seg \<Rightarrow> string" where
  "with_ref b (Gap g) = g"
| "with_ref b (Entry h) = cap1 h @ b @ cap3 h"

subsection \<open>The pattern of line 47\<close>

text \<open>
  The repository URL is pasted into the source of the pattern as it is, so its
  characters are pattern syntax. The model covers a URL whose only character with a
  meaning in a pattern is \<^verbatim>\<open>.\<close>; a URL with any other of
  \<^verbatim>\<open>\ ^ $ * + ? ( ) [ ] { } |\<close> is outside the model, and the result is \<open>None\<close>
  (most such sources are another pattern, or a \<^verbatim>\<open>SyntaxError\<close> of
  \<^verbatim>\<open>new RegExp\<close>, which line 47 raises outside the \<^verbatim>\<open>try\<close>).
\<close>

definition is_syntax_char :: "char \<Rightarrow> bool" where
  "is_syntax_char c = (c \<in> set (CHR 0x5C # ''^$.*+?()[]{}|''))"

definition url_items :: "string \<Rightarrow> item list option" where
  "url_items u =
     (if \<exists>c \<in> set u. is_syntax_char c \<and> c \<noteq> CHR ''.'' then None
      else Some (map (\<lambda>c. if c = CHR ''.'' then One Dot else One (Lit c)) u))"

text \<open>
  \<^verbatim>\<open>'('+repoUrl+'[\'"],\\s*:ref\\s*=>\\s*[\'"])([^\'"]+)([\'"]\\s*)$'\<close> with the
  flags \<^verbatim>\<open>gm\<close>.
\<close>

definition module_regex :: "string \<Rightarrow> regex option" where
  "module_regex repoUrl =
     (case url_items repoUrl of
        None \<Rightarrow> None
      | Some u \<Rightarrow> Some
          \<lparr>group1 = u @ [One QuoteC, One (Lit CHR '',''), Star SpaceC] @
                     map (One \<circ> Lit) '':ref'' @ [Star SpaceC] @
                     map (One \<circ> Lit) ''=>'' @ [Star SpaceC, One QuoteC],
           group2 = [Plus NotQuote],
           group3 = [One QuoteC, Star SpaceC]\<rparr>)"

text \<open>
  A text matches the URL read as a pattern: code unit for code unit the same, but for
  any code unit other than a line terminator where the URL has a dot.
\<close>

definition url_matches :: "string \<Rightarrow> string \<Rightarrow> bool" where
  "url_matches u m =
     list_all2 (\<lambda>p x. if p = CHR ''.'' then \<not> is_line_terminator x else x = p) u m"

text \<open>
  What every match of the pattern begins with: a text that matches the URL read as a
  pattern, and a quote right after it. \<open>starts_url_quote u s\<close> says that \<open>s\<close> begins
  so, \<open>url_then_quote u s\<close> that \<open>s\<close> holds such a text at some position.
\<close>

definition starts_url_quote :: "string \<Rightarrow> string \<Rightarrow> bool" where
  "starts_url_quote u s =
     (length u < length s \<and> url_matches u (take (length u) s) \<and> is_quote (s ! length u))"

fun url_then_quote :: "string \<Rightarrow> string \<Rightarrow> bool" where
  "url_then_quote u [] = False"
| "url_then_quote u (x # xs) = (starts_url_quote u (x # xs) \<or> url_then_quote u xs)"

subsection \<open>Inputs, collaborators and the state of a run\<close>

text \<open>The event (\<^verbatim>\<open>eventData\<close>) and what the run reads of its process.\<close>

record eventData =
  pfrepo :: string
  branch :: string
  reponame :: string
  pushuser :: string
  repourl :: string
  repopath :: string

record process_env =
  PUPPETFILE_GIT_DEFAULT_BRANCH :: "string option"
  date_now :: int
  cwd :: string

datatype deploy_type = deploy_env | deploy_mod

record rundeck_data =
  rd_pushUsername :: string
  rd_branch :: string
  rd_module :: string
  rd_path :: string
  rd_repoUrl :: string
  rd_type :: deploy_type

text \<open>A value thrown by a collaborator.\<close>

datatype error = Error string

text \<open>
  The calls a run makes, with their arguments: the git utilities
  (\<^verbatim>\<open>GU.clone\<close>, \<^verbatim>\<open>GU.fetch\<close>, \<^verbatim>\<open>GU.branchExist\<close>, \<^verbatim>\<open>GU.checkoutExisting\<close>,
  \<^verbatim>\<open>GU.checkoutNew\<close>, \<^verbatim>\<open>GU.commit\<close>, \<^verbatim>\<open>GU.push\<close>), the file system
  (\<^verbatim>\<open>fse.readFile\<close>, \<^verbatim>\<open>fse.writeFile\<close>, \<^verbatim>\<open>fse.remove\<close>), \<^verbatim>\<open>RD.runJob\<close>,
  \<^verbatim>\<open>process.chdir\<close> and the callback \<^verbatim>\<open>cbk\<close>. The calls of the logger are left
  out: they are taken to return.
\<close>

datatype action =
    Clone string string
  | Fetch string
  | BranchExist string string
  | CheckoutExisting string string
  | CheckoutNew string string
  | ReadFile string
  | WriteFile string string
  | Commit string string string
  | Push string string
  | RunJob rundeck_data
  | Remove string
  | Chdir string
  | Cbk "error option"

text \<open>The kinds of call.\<close>

datatype kind =
  KGit | KNewBranch | KRead | KWrite | KCommit | KPush | KJob | KRemove | KChdir | KCbk

fun kind_of :: "action \<Rightarrow> kind" where
  "kind_of (Clone _ _) = KGit"
| "kind_of (Fetch _) = KGit"
| "kind_of (BranchExist _ _) = KGit"
| "kind_of (CheckoutExisting _ _) = KGit"
| "kind_of (CheckoutNew _ _) = KNewBranch"
| "kind_of (ReadFile _) = KRead"
| "kind_of (WriteFile _ _) = KWrite"
| "kind_of (Commit _ _ _) = KCommit"
| "kind_of (Push _ _) = KPush"
| "kind_of (RunJob _) = KJob"
| "kind_of (Remove _) = KRemove"
| "kind_of (Chdir _) = KChdir"
| "kind_of (Cbk _) = KCbk"

text \<open>
  What each collaborator does in this run: \<open>None\<close> (or \<open>Inr\<close> with the value) when the
  call returns, the error when it throws. \<^verbatim>\<open>fse.remove\<close> is called at line 163 and at
  line 176, and the callback with \<^verbatim>\<open>null\<close> or with the error.
\<close>

record world =
  clone_res :: "error option"
  fetch_res :: "error option"
  branchExist_res :: "error + bool"
  checkoutExisting_res :: "error + bool"
  checkoutNew_res :: "error option"
  readFile_res :: "error + string"
  writeFile_res :: "error option"
  commit_res :: "error option"
  push_res :: "error option"
  runJob_res :: "error + string"
  remove_res :: "error option"
  remove_catch_res :: "error option"
  chdir_res :: "error option"
  cbk_res :: "error option \<Rightarrow> error option"

text \<open>
  The two flags of the run and the calls made so far, oldest first, each with the error
  it threw, if it threw.
\<close>

type_synonym entry = "action \<times> error option"

record state =
  trace :: "entry list"
  fullDeploymentNeeded :: bool
  commitNeeded :: bool

type_synonym 'a step = "state \<Rightarrow> (error + 'a) \<times> state"

definition ret :: "'a \<Rightarrow> 'a step" where
  "ret x s = (Inr x, s)"

text \<open>Sequencing: a step that throws ends the sequence.\<close>

definition bindS :: "'a step \<Rightarrow> ('a \<Rightarrow> 'b step) \<Rightarrow> 'b step" where
  "bindS m f s = (case m s of (Inl e, s') \<Rightarrow> (Inl e, s') | (Inr x, s') \<Rightarrow> f x s')"

definition outcome :: "error option \<Rightarrow> error + unit" where
  "outcome r = (case r of None \<Rightarrow> Inr () | Some e \<Rightarrow> Inl e)"

definition fault :: "error + 'a \<Rightarrow> error option" where
  "fault r = (case r of Inl e \<Rightarrow> Some e | Inr _ \<Rightarrow> None)"

definition call :: "action \<Rightarrow> error + 'a \<Rightarrow> 'a step" where
  "call a r s = (r, s\<lparr>trace := trace s @ [(a, fault r)]\<rparr>)"

subsection \<open>The locals of lines 27 to 47\<close>

text \<open>
  \<^verbatim>\<open>'' + now\<close> for an integral number below \<open>10^21\<close> in absolute value, as every
  time value is: the decimal digits, after a minus sign for a negative number.
\<close>

fun digits :: "nat \<Rightarrow> string" where
  "digits n =
     (if n < 10 then [''0123456789'' ! n]
      else digits (n div 10) @ [''0123456789'' ! (n mod 10)])"

declare digits.simps [simp del]

definition number_to_string :: "int \<Rightarrow> string" where
  "number_to_string i = (if i < 0 then CHR ''-'' # digits (nat (- i)) else digits (nat i))"

definition gitdir :: "process_env \<Rightarrow> string" where
  "gitdir env = ''/var/tmp/puppetfile_repo_'' @ number_to_string (date_now env)"

definition pfile :: "process_env \<Rightarrow> string" where
  "pfile env = gitdir env @ ''/Puppetfile''"

text \<open>\<^verbatim>\<open>process.env.PUPPETFILE_GIT_DEFAULT_BRANCH || 'production'\<close>: an empty string is falsy.\<close>

definition defaultBranch :: "process_env \<Rightarrow> string" where
  "defaultBranch env =
     (case PUPPETFILE_GIT_DEFAULT_BRANCH env of
        None \<Rightarrow> ''production''
      | Some v \<Rightarrow> if v = [] then ''production'' else v)"

definition puppetfileBranchName :: "process_env \<Rightarrow> eventData \<Rightarrow> string" where
  "puppetfileBranchName env ev =
     (if branch ev = ''production'' then defaultBranch env else branch ev)"

definition rundeck :: "process_env \<Rightarrow> eventData \<Rightarrow> deploy_type \<Rightarrow> rundeck_data" where
  "rundeck env ev ty =
     \<lparr>rd_pushUsername = pushuser ev, rd_branch = puppetfileBranchName env ev,
      rd_module = reponame ev, rd_path = repopath ev, rd_repoUrl = repourl ev,
      rd_type = ty\<rparr>"

subsection \<open>The body of the \<^verbatim>\<open>try\<close>\<close>

text \<open>Lines 54 to 77: clone, fetch, and the checkout of the branch of the Puppetfile.\<close>

definition checkout_branch :: "process_env \<Rightarrow> eventData \<Rightarrow> world \<Rightarrow> unit step" where
  "checkout_branch env ev w =
     bindS (call (Clone (gitdir env) (pfrepo ev)) (outcome (clone_res w))) (\<lambda>_.
     bindS (call (Fetch (gitdir env)) (outcome (fetch_res w))) (\<lambda>_.
     bindS (call (BranchExist (puppetfileBranchName env ev) (gitdir env)) (branchExist_res w))
       (\<lambda>branchExist.
         if branchExist then
           bindS (call (CheckoutExisting (puppetfileBranchName env ev) (gitdir env))
                    (checkoutExisting_res w))
             (\<lambda>merged s. (Inr (), s\<lparr>fullDeploymentNeeded := merged\<rparr>))
         else
           bindS (call (CheckoutNew (puppetfileBranchName env ev) (gitdir env))
                    (outcome (checkoutNew_res w)))
             (\<lambda>_ s. (Inr (), s\<lparr>fullDeploymentNeeded := True, commitNeeded := True\<rparr>)))))"

text \<open>The entry line 89 appends for a module the Puppetfile does not name.\<close>

definition new_entry :: "eventData \<Rightarrow> string" where
  "new_entry ev =
     [CHR 0x0A] @ ''mod \"'' @ reponame ev @ ''\",'' @ [CHR 0x0A] @
     ''  :git => \"'' @ repourl ev @ ''\",'' @ [CHR 0x0A] @
     ''  :ref => \"'' @ branch ev @ ''\"'' @ [CHR 0x0A]"

text \<open>Lines 80 to 117: the reference of the module in the Puppetfile.\<close>

definition update_puppetfile :: "process_env \<Rightarrow> eventData \<Rightarrow> regex \<Rightarrow> world \<Rightarrow> unit step" where
  "update_puppetfile env ev rx w =
     bindS (call (ReadFile (pfile env)) (readFile_res w)) (\<lambda>content.
       case exec rx content of
         None \<Rightarrow>
           bindS (call (WriteFile (pfile env) (content @ new_entry ev))
                    (outcome (writeFile_res w)))
             (\<lambda>_ s. (Inr (), s\<lparr>commitNeeded := True\<rparr>))
       | Some moduleDefined \<Rightarrow>
           if cap2 moduleDefined \<noteq> puppetfileBranchName env ev \<and>
              cap2 moduleDefined \<noteq> ''production''
           then
             bindS (call (WriteFile (pfile env)
                            (js_replace content rx (''$1'' @ branch ev @ ''$3'')))
                      (outcome (writeFile_res w)))
               (\<lambda>_ s. (Inr (), s\<lparr>commitNeeded := True\<rparr>))
           else ret ())"

text \<open>
  The variable \<^verbatim>\<open>new_content\<close> after line 117 for the text read at line 80: assigned
  at line 89 or at line 108, or left undefined (\<open>None\<close>).
\<close>

definition new_content :: "process_env \<Rightarrow> eventData \<Rightarrow> regex \<Rightarrow> string \<Rightarrow> string option" where
  "new_content env ev rx content =
     (case exec rx content of
        None \<Rightarrow> Some (content @ new_entry ev)
      | Some moduleDefined \<Rightarrow>
          if cap2 moduleDefined \<noteq> puppetfileBranchName env ev \<and>
             cap2 moduleDefined \<noteq> ''production''
          then Some (js_replace content rx (''$1'' @ branch ev @ ''$3''))
          else None)"

text \<open>Lines 127 to 141: the commit and the push.\<close>

definition commit_push :: "process_env \<Rightarrow> eventData \<Rightarrow> world \<Rightarrow> unit step" where
  "commit_push env ev w =
     bindS (\<lambda>s. if commitNeeded s
                 then call (Commit (reponame ev) (puppetfileBranchName env ev) (gitdir env))
                        (outcome (commit_res w)) s
                 else ret () s) (\<lambda>_ s.
       if commitNeeded s \<or> fullDeploymentNeeded s
       then call (Push (puppetfileBranchName env ev) (gitdir env)) (outcome (push_res w)) s
       else ret () s)"

text \<open>Lines 147 to 168: the Rundeck job, the removal of the clone, the callback.\<close>

definition deploy :: "process_env \<Rightarrow> eventData \<Rightarrow> world \<Rightarrow> unit step" where
  "deploy env ev w =
     bindS (\<lambda>s. call (RunJob (rundeck env ev
                        (if fullDeploymentNeeded s then deploy_env else deploy_mod)))
                   (runJob_res w) s) (\<lambda>rd_job_status.
     bindS (call (Remove (gitdir env)) (outcome (remove_res w))) (\<lambda>_.
       call (Cbk None) (outcome (cbk_res w None))))"

definition try_block :: "process_env \<Rightarrow> eventData \<Rightarrow> regex \<Rightarrow> world \<Rightarrow> unit step" where
  "try_block env ev rx w =
     bindS (checkout_branch env ev w) (\<lambda>_.
     bindS (update_puppetfile env ev rx w) (\<lambda>_.
     bindS (commit_push env ev w) (\<lambda>_.
       deploy env ev w)))"

text \<open>Lines 170 to 181.\<close>

definition catch_block :: "process_env \<Rightarrow> world \<Rightarrow> error \<Rightarrow> unit step" where
  "catch_block env w err =
     bindS (call (Chdir (cwd env)) (outcome (chdir_res w))) (\<lambda>_.
     bindS (call (Remove (gitdir env)) (outcome (remove_catch_res w))) (\<lambda>_.
       call (Cbk (Some err)) (outcome (cbk_res w (Some err)))))"

subsection \<open>\<^verbatim>\<open>runModify\<close>\<close>

text \<open>
  What a run leaves: the calls it made, the flags, and the error that left the
  generator uncaught, if one did.
\<close>

record run =
  calls :: "entry list"
  full_flag :: bool
  commit_flag :: bool
  uncaught :: "error option"

definition finish :: "(error + unit) \<times> state \<Rightarrow> run" where
  "finish p =
     \<lparr>calls = trace (snd p), full_flag = fullDeploymentNeeded (snd p),
      commit_flag = commitNeeded (snd p),
      uncaught = (case fst p of Inl e \<Rightarrow> Some e | Inr _ \<Rightarrow> None)\<rparr>"

definition init :: state where
  "init = \<lparr>trace = [], fullDeploymentNeeded = False, commitNeeded = False\<rparr>"

text \<open>
  Observations on a list of calls: the kinds that occur, how often a kind occurs, whether
  a call of a kind returned, whether every call returned. \<open>shape r t\<close> relates the
  calls of a step to its result: every call returned, or the last one threw the error
  of the result and the others returned.
\<close>

definition kinds :: "entry list \<Rightarrow> kind set" where
  "kinds t = (\<lambda>x. kind_of (fst x)) ` set t"

definition cnt :: "kind \<Rightarrow> entry list \<Rightarrow> nat" where
  "cnt k t = length (filter (\<lambda>x. kind_of (fst x) = k) t)"

definition okk :: "kind \<Rightarrow> entry list \<Rightarrow> bool" where
  "okk k t = (\<exists>x \<in> set t. kind_of (fst x) = k \<and> snd x = None)"

definition clean :: "entry list \<Rightarrow> bool" where
  "clean t = (\<forall>x \<in> set t. snd x = None)"

definition shape :: "error + 'a \<Rightarrow> entry list \<Rightarrow> bool" where
  "shape r t =
     (case r of
        Inr _ \<Rightarrow> clean t
      | Inl e \<Rightarrow> t \<noteq> [] \<and> snd (last t) = Some e \<and> clean (butlast t))"

text \<open>How often a run made a call of a kind, and whether such a call returned.\<close>

definition n_calls :: "kind \<Rightarrow> run \<Rightarrow> nat" where
  "n_calls k r = cnt k (calls r)"

definition succeeded :: "kind \<Rightarrow> run \<Rightarrow> bool" where
  "succeeded k r = okk k (calls r)"

text \<open>A call of a kind that comes before the push threw.\<close>

definition threw_before_push :: "run \<Rightarrow> bool" where
  "threw_before_push r \<longleftrightarrow>
     (\<exists>x \<in> set (calls r).
        kind_of (fst x) \<in> {KGit, KNewBranch, KRead, KWrite, KCommit} \<and> snd x \<noteq> None)"

text \<open>
  Conditions on the world: the branch is missing on the remote and gets created; the
  Puppetfile is read and needs no rewrite; the Puppetfile is read and, where it needs a
  rewrite, written.
\<close>

definition new_branch_world :: "world \<Rightarrow> bool" where
  "new_branch_world w \<longleftrightarrow>
     clone_res w = None \<and> fetch_res w = None \<and> branchExist_res w = Inr False \<and>
     checkoutNew_res w = None"

definition no_rewrite :: "process_env \<Rightarrow> eventData \<Rightarrow> regex \<Rightarrow> world \<Rightarrow> bool" where
  "no_rewrite env ev rx w \<longleftrightarrow>
     (\<exists>content. readFile_res w = Inr content \<and> new_content env ev rx content = None)"

definition update_returns :: "process_env \<Rightarrow> eventData \<Rightarrow> regex \<Rightarrow> world \<Rightarrow> bool" where
  "update_returns env ev rx w \<longleftrightarrow>
     (\<exists>content. readFile_res w = Inr content \<and>
        (new_content env ev rx content = None \<or> writeFile_res w = None))"

text \<open>
  The result is \<open>None\<close> for a repository URL whose pattern is outside the model
  (see \<open>url_items\<close>).
\<close>

definition runModify :: "process_env \<Rightarrow> eventData \<Rightarrow> world \<Rightarrow> run option" where
  "runModify env ev w =
     (case module_regex (repourl ev) of
        None \<Rightarrow> None
      | Some rx \<Rightarrow>
          Some (case try_block env ev rx w init of
                  (Inr _, s) \<Rightarrow> finish (Inr (), s)
                | (Inl err, s) \<Rightarrow> finish (catch_block env w err s)))"

text \<open>What the body of the \<^verbatim>\<open>try\<close> leaves, phase by phase.\<close>

definition try_post ::
  "process_env \<Rightarrow> eventData \<Rightarrow> regex \<Rightarrow> world \<Rightarrow> error + unit \<Rightarrow> state \<Rightarrow>
   entry list \<Rightarrow> entry list \<Rightarrow> entry list \<Rightarrow> entry list \<Rightarrow> bool" where
  "try_post env ev rx w r s a1 a2 a3 a4 \<longleftrightarrow>
     trace s = a1 @ a2 @ a3 @ a4 \<and>
     kinds a1 \<subseteq> {KGit, KNewBranch} \<and> kinds a2 \<subseteq> {KRead, KWrite} \<and>
     kinds a3 \<subseteq> {KCommit, KPush} \<and> kinds a4 \<subseteq> {KJob, KRemove, KCbk} \<and>
     shape r (a1 @ a2 @ a3 @ a4) \<and>
     (okk KNewBranch a1 \<longleftrightarrow> new_branch_world w) \<and>
     (okk KNewBranch a1 \<longrightarrow> fullDeploymentNeeded s) \<and>
     (commitNeeded s \<longleftrightarrow> okk KNewBranch a1 \<or> okk KWrite a2) \<and>
     (no_rewrite env ev rx w \<longrightarrow> KWrite \<notin> kinds a2) \<and>
     cnt KCommit a3 \<le> 1 \<and> cnt KPush a3 \<le> 1 \<and>
     (KCommit \<in> kinds a3 \<longrightarrow> commitNeeded s) \<and>
     (KPush \<in> kinds a3 \<longrightarrow> commitNeeded s \<or> fullDeploymentNeeded s) \<and>
     (clean (a1 @ a2) \<and> a2 \<noteq> [] \<longrightarrow>
        (KCommit \<in> kinds a3 \<longleftrightarrow> commitNeeded s) \<and>
        (okk KCommit a3 \<or> \<not> commitNeeded s \<longrightarrow>
           (KPush \<in> kinds a3 \<longleftrightarrow> commitNeeded s \<or> fullDeploymentNeeded s))) \<and>
     (KJob \<in> kinds a4 \<longrightarrow> clean (a1 @ a2 @ a3) \<and> a2 \<noteq> []) \<and>
     (new_branch_world w \<longrightarrow> clean a1) \<and> (clean a1 \<longrightarrow> a2 \<noteq> []) \<and>
     (clean a1 \<and> update_returns env ev rx w \<longrightarrow> clean a2) \<and>
     (commit_res w = None \<longrightarrow> KCommit \<in> kinds a3 \<longrightarrow> okk KCommit a3) \<and>
     cnt KCbk a4 \<le> 1 \<and> cnt KRemove a4 \<le> 1 \<and> cnt KJob a4 \<le> 1 \<and>
     (r = Inr () \<longrightarrow>
        a4 = [(RunJob (rundeck env ev
                 (if fullDeploymentNeeded s then deploy_env else deploy_mod)), None),
              (Remove (gitdir env), None), (Cbk None, None)]) \<and>
     (\<forall>e. r = Inl e \<longrightarrow> \<not> okk KCbk a4 \<and> (KCbk \<in> kinds a4 \<longrightarrow> cbk_res w None = Some e))"

subsection \<open>Sample inputs\<close>

text \<open>
  A process started in \<^verbatim>\<open>/srv/deployer\<close>, with no override of the default branch,
  whose clock reads 1478160000000; two events of the same millisecond, for the modules
  \<^verbatim>\<open>ntp\<close> and \<^verbatim>\<open>dns\<close>; a world where \<^verbatim>\<open>GU.clone\<close> throws and everything
  else returns.
\<close>

definition env0 :: process_env where
  "env0 = \<lparr>PUPPETFILE_GIT_DEFAULT_BRANCH = None, date_now = 1478160000000,
            cwd = ''/srv/deployer''\<rparr>"

definition ev_ntp :: eventData where
  "ev_ntp = \<lparr>pfrepo = ''git@host:puppetfile'', branch = ''feat'', reponame = ''ntp'',
              pushuser = ''ann'', repourl = ''git@host:mod/ntp'', repopath = ''mod/ntp''\<rparr>"

definition ev_dns :: eventData where
  "ev_dns = \<lparr>pfrepo = ''git@host:puppetfile'', branch = ''fix'', reponame = ''dns'',
              pushuser = ''bob'', repourl = ''git@host:mod/dns'', repopath = ''mod/dns''\<rparr>"

definition w_ok :: "string \<Rightarrow> world" where
  "w_ok content =
     \<lparr>clone_res = None, fetch_res = None, branchExist_res = Inr True,
      checkoutExisting_res = Inr False, checkoutNew_res = None,
      readFile_res = Inr content, writeFile_res = None, commit_res = None,
      push_res = None, runJob_res = Inr ''succeeded'', remove_res = None,
      remove_catch_res = None, chdir_res = None, cbk_res = (\<lambda>_. None)\<rparr>"

definition w_clone_fails :: world where
  "w_clone_fails = (w_ok [])\<lparr>clone_res := Some (Error ''clone'')\<rparr>"

text \<open>
  The same world with the branch missing on the remote, and one where the removal of
  the clone fails as well as the clone itself.
\<close>

definition w_new :: "string \<Rightarrow> world" where
  "w_new content = (w_ok content)\<lparr>branchExist_res := Inr False\<rparr>"

definition w_cleanup_fails :: world where
  "w_cleanup_fails = w_clone_fails\<lparr>remove_catch_res := Some (Error ''rm'')\<rparr>"

text \<open>The pattern of the event for \<^verbatim>\<open>ntp\<close>.\<close>

definition rx_ntp :: regex where
  "rx_ntp = the (module_regex ''git@host:mod/ntp'')"

text \<open>
  An entry of a Puppetfile in the shape the specification gives (section 6): three
  lines, the name, the URL and the reference each between double quotes.
\<close>

definition pf_entry :: "string \<Rightarrow> string \<Rightarrow> string \<Rightarrow> string" where
  "pf_entry name url ref =
     ''mod \"'' @ name @ ''\",'' @ [CHR 0x0A] @
     ''  :git => \"'' @ url @ ''\",'' @ [CHR 0x0A] @
     ''  :ref => \"'' @ ref @ ''\"'' @ [CHR 0x0A]"

text \<open>
  Puppetfiles: \<^verbatim>\<open>ntp\<close> at the branch of the event, \<^verbatim>\<open>ntp\<close> at another reference,
  \<^verbatim>\<open>ntp\<close> named twice, and a module of another host whose URL ends with the URL
  \<^verbatim>\<open>host/ntp\<close>.
\<close>

definition pf_feat :: string where
  "pf_feat = pf_entry ''ntp'' ''git@host:mod/ntp'' ''feat''"

definition pf_old :: string where
  "pf_old = pf_entry ''ntp'' ''git@host:mod/ntp'' ''old''"

definition pf_twice :: string where
  "pf_twice = pf_entry ''ntp'' ''git@host:mod/ntp'' ''old'' @
              pf_entry ''ntp'' ''git@host:mod/ntp'' ''v2''"

definition pf_other :: string where
  "pf_other = pf_entry ''legacy'' ''otherhost/ntp'' ''v1''"

text \<open>A Puppetfile that names the module \<^verbatim>\<open>dns\<close> alone.\<close>

definition pf_dns :: string where
  "pf_dns = pf_entry ''dns'' ''git@host:mod/dns'' ''main''"

text \<open>
  More events and a process: the module \<^verbatim>\<open>ntp\<close> announced under the URL
  \<^verbatim>\<open>host/ntp\<close>, with its pattern; a process whose default branch is \<^verbatim>\<open>main\<close>
  and an event on the branch \<^verbatim>\<open>production\<close>; an event on a branch whose name holds
  dollar signs; a Puppetfile that names \<^verbatim>\<open>ntp\<close> twice, the second time at
  \<^verbatim>\<open>production\<close>; and the match of \<open>rx_ntp\<close> in \<open>pf_old\<close>.
\<close>

definition ev_host :: eventData where
  "ev_host = ev_ntp\<lparr>repourl := ''host/ntp''\<rparr>"

definition rx_host :: regex where
  "rx_host = the (module_regex ''host/ntp'')"

definition env_main :: process_env where
  "env_main = env0\<lparr>PUPPETFILE_GIT_DEFAULT_BRANCH := Some ''main''\<rparr>"

definition ev_prod :: eventData where
  "ev_prod = ev_ntp\<lparr>branch := ''production''\<rparr>"

definition ev_dollar :: eventData where
  "ev_dollar = ev_ntp\<lparr>branch := ''a$$b''\<rparr>"

definition pf_pinned :: string where
  "pf_pinned = pf_entry ''ntp'' ''git@host:mod/ntp'' ''old'' @
               pf_entry ''ntp'' ''git@host:mod/ntp'' ''production''"

definition h_old :: hit where
  "h_old =
     \<lparr>before = ''mod \"ntp\",'' @ [CHR 0x0A] @ ''  :git => \"'',
      cap1 = ''git@host:mod/ntp\",'' @ [CHR 0x0A] @ ''  :ref => \"'',
      cap2 = ''old'', cap3 = ''\"'' @ [CHR 0x0A], after = []\<rparr>"

section \<open>Properties\<close>

lemmas run_defs =
  runModify_def try_block_def catch_block_def checkout_branch_def update_puppetfile_def
  commit_push_def deploy_def bindS_def call_def ret_def outcome_def fault_def finish_def
  init_def

lemmas regex_defs =
  module_regex_def url_items_def is_syntax_char_def exec_def js_replace_def match_here_def
  at_eol_def is_quote_def is_space_def is_line_terminator_def matched_def capture_def
  is_digit_def digit_val_def replace_from.simps

lemmas sample_defs =
  env0_def ev_ntp_def ev_dns_def w_ok_def w_clone_fails_def w_new_def w_cleanup_fails_def
  pf_entry_def pf_feat_def pf_old_def pf_twice_def pf_other_def

lemmas local_defs =
  gitdir_def pfile_def number_to_string_def digits.simps defaultBranch_def
  puppetfileBranchName_def rundeck_def new_entry_def

lemmas sample2_defs =
  ev_host_def rx_host_def env_main_def ev_prod_def ev_dollar_def pf_pinned_def

lemmas eval_defs =
  new_content_def rx_ntp_def regex_defs sample_defs sample2_defs puppetfileBranchName_def
  defaultBranch_def new_entry_def

subsection \<open>The matcher\<close>

lemma in_map_fst:
  "(m, t) \<in> set (map (\<lambda>b. (f (fst b), snd b)) l) \<longleftrightarrow> (\<exists>m'. m = f m' \<and> (m', t) \<in> set l)"
  by (induction l) auto

lemma in_map_cons:
  "(m, t) \<in> set (map (\<lambda>(m, t). (x # m, t)) l) \<longleftrightarrow> (\<exists>m'. m = x # m' \<and> (m', t) \<in> set l)"
  using in_map_fst [of m t "(#) x" l] by (simp add: split_def)

lemma in_image_cons:
  "(m, t) \<in> (\<lambda>(m, t). (x # m, t)) ` S \<longleftrightarrow> (\<exists>m'. m = x # m' \<and> (m', t) \<in> S)"
  by force

lemma alts_One:
  "(m, t) \<in> set (alts (One c # p) s) \<longleftrightarrow>
     (\<exists>x xs m'. s = x # xs \<and> cls_match c x \<and> m = x # m' \<and> (m', t) \<in> set (alts p xs))"
  by (cases s) (auto simp: in_map_cons)

lemma alts_Star:
  "(m, t) \<in> set (alts (Star c # p) s) \<longleftrightarrow>
     (\<exists>ws m' s'. s = ws @ s' \<and> (\<forall>x \<in> set ws. cls_match c x) \<and> m = ws @ m' \<and>
        (m', t) \<in> set (alts p s'))"
proof (induction s arbitrary: m)
  case Nil
  then show ?case by auto
next
  case (Cons x xs)
  show ?case
  proof
    assume "(m, t) \<in> set (alts (Star c # p) (x # xs))"
    then consider (more) m0 where "cls_match c x" "m = x # m0" "(m0, t) \<in> set (alts (Star c # p) xs)"
      | (stop) "(m, t) \<in> set (alts p (x # xs))"
      by (auto simp: in_map_cons split: if_splits)
    then show "\<exists>ws m' s'. x # xs = ws @ s' \<and> (\<forall>x \<in> set ws. cls_match c x) \<and> m = ws @ m' \<and>
        (m', t) \<in> set (alts p s')"
    proof cases
      case more
      with Cons obtain ws m' s' where "xs = ws @ s'" "\<forall>x \<in> set ws. cls_match c x" "m0 = ws @ m'"
        "(m', t) \<in> set (alts p s')" by blast
      with more have "x # xs = (x # ws) @ s' \<and> (\<forall>x \<in> set (x # ws). cls_match c x) \<and> m = (x # ws) @ m' \<and>
        (m', t) \<in> set (alts p s')" by simp
      then show ?thesis by blast
    next
      case stop
      then have "x # xs = [] @ (x # xs) \<and> (\<forall>x \<in> set []. cls_match c x) \<and> m = [] @ m \<and>
        (m, t) \<in> set (alts p (x # xs))" by simp
      then show ?thesis by blast
    qed
  next
    assume "\<exists>ws m' s'. x # xs = ws @ s' \<and> (\<forall>x \<in> set ws. cls_match c x) \<and> m = ws @ m' \<and>
        (m', t) \<in> set (alts p s')"
    then obtain ws m' s' where *: "x # xs = ws @ s'" "\<forall>x \<in> set ws. cls_match c x" "m = ws @ m'"
        "(m', t) \<in> set (alts p s')" by blast
    show "(m, t) \<in> set (alts (Star c # p) (x # xs))"
    proof (cases ws)
      case Nil
      with * show ?thesis by auto
    next
      case (Cons y ys)
      with * have "y = x" "xs = ys @ s'" "cls_match c x" "\<forall>x \<in> set ys. cls_match c x" by auto
      with * Cons Cons.IH [of "ys @ m'"] have "(ys @ m', t) \<in> set (alts (Star c # p) xs)" by blast
      with Cons * \<open>y = x\<close> \<open>cls_match c x\<close> show ?thesis by (auto simp: in_map_cons)
    qed
  qed
qed

lemma alts_Plus:
  "(m, t) \<in> set (alts (Plus c # p) s) \<longleftrightarrow>
     (\<exists>x ws m' s'. s = x # ws @ s' \<and> cls_match c x \<and> (\<forall>x \<in> set ws. cls_match c x) \<and>
        m = x # ws @ m' \<and> (m', t) \<in> set (alts p s'))"
proof (cases s)
  case Nil
  then show ?thesis by simp
next
  case (Cons y ys)
  have "(m, t) \<in> set (alts (Plus c # p) (y # ys)) \<longleftrightarrow>
      cls_match c y \<and> (\<exists>m0. m = y # m0 \<and> (m0, t) \<in> set (alts (Star c # p) ys))"
    by (simp add: in_image_cons)
  also have "\<dots> \<longleftrightarrow> cls_match c y \<and> (\<exists>m0. m = y # m0 \<and>
      (\<exists>ws m' s'. ys = ws @ s' \<and> (\<forall>x \<in> set ws. cls_match c x) \<and> m0 = ws @ m' \<and>
        (m', t) \<in> set (alts p s')))"
    by (simp only: alts_Star)
  also have "\<dots> \<longleftrightarrow> (\<exists>x ws m' s'. y # ys = x # ws @ s' \<and> cls_match c x \<and>
        (\<forall>x \<in> set ws. cls_match c x) \<and> m = x # ws @ m' \<and> (m', t) \<in> set (alts p s'))"
    by auto
  finally show ?thesis by (simp only: Cons)
qed

lemma alts_Nil: "(m, t) \<in> set (alts [] s) \<longleftrightarrow> m = [] \<and> t = s"
  by auto

lemma alts_url:
  "(m, t) \<in> set (alts (map (\<lambda>c. if c = CHR ''.'' then One Dot else One (Lit c)) u @ p) s) \<longleftrightarrow>
     (\<exists>m1 m2 s1. m = m1 @ m2 \<and> s = m1 @ s1 \<and> url_matches u m1 \<and> (m2, t) \<in> set (alts p s1))"
proof (induction u arbitrary: m s)
  case Nil
  have "(\<exists>m1 m2 s1. m = m1 @ m2 \<and> s = m1 @ s1 \<and> m1 = [] \<and> (m2, t) \<in> set (alts p s1)) \<longleftrightarrow>
      (m, t) \<in> set (alts p s)"
    by (metis append_Nil)
  then show ?case by (simp add: url_matches_def)
next
  case (Cons c u)
  show ?case
  proof (cases s)
    case Nil
    then show ?thesis by (auto simp: url_matches_def list_all2_Cons1)
  next
    case s: (Cons x xs)
    show ?thesis
    proof
      assume "(m, t) \<in> set (alts (map (\<lambda>c. if c = CHR ''.'' then One Dot else One (Lit c)) (c # u) @ p) s)"
      with s obtain m' where m': "m = x # m'" "if c = CHR ''.'' then \<not> is_line_terminator x else x = c"
        "(m', t) \<in> set (alts (map (\<lambda>c. if c = CHR ''.'' then One Dot else One (Lit c)) u @ p) xs)"
        by (auto simp: in_map_cons split: if_splits)
      with Cons [of m' xs] obtain m1 m2 s1 where
        "m' = m1 @ m2" "xs = m1 @ s1" "url_matches u m1" "(m2, t) \<in> set (alts p s1)" by blast
      with m' s have "m = (x # m1) @ m2 \<and> s = (x # m1) @ s1 \<and> url_matches (c # u) (x # m1) \<and>
         (m2, t) \<in> set (alts p s1)" by (simp add: url_matches_def)
      then show "\<exists>m1 m2 s1. m = m1 @ m2 \<and> s = m1 @ s1 \<and> url_matches (c # u) m1 \<and> (m2, t) \<in> set (alts p s1)"
        by blast
    next
      assume "\<exists>m1 m2 s1. m = m1 @ m2 \<and> s = m1 @ s1 \<and> url_matches (c # u) m1 \<and> (m2, t) \<in> set (alts p s1)"
      then obtain m1 m2 s1 where *: "m = m1 @ m2" "s = m1 @ s1" "url_matches (c # u) m1"
        "(m2, t) \<in> set (alts p s1)" by blast
      from *(3) obtain y ys where y: "m1 = y # ys" "if c = CHR ''.'' then \<not> is_line_terminator y else y = c"
        "url_matches u ys" by (auto simp: url_matches_def list_all2_Cons1)
      with * s have "y = x" "xs = ys @ s1" by auto
      with * y Cons [of "ys @ m2" xs] have
        "(ys @ m2, t) \<in> set (alts (map (\<lambda>c. if c = CHR ''.'' then One Dot else One (Lit c)) u @ p) xs)"
        by blast
      with * y s \<open>y = x\<close> show "(m, t) \<in> set (alts (map (\<lambda>c. if c = CHR ''.'' then One Dot else One (Lit c)) (c # u) @ p) s)"
        by (auto simp: in_map_cons)
    qed
  qed
qed

lemma match_here_parts:
  assumes "match_here rx s = Some (a, b, c, t)"
  shows "\<exists>s1 s2. (a, s1) \<in> set (alts (group1 rx) s) \<and> (b, s2) \<in> set (alts (group2 rx) s1) \<and>
           (c, t) \<in> set (alts (group3 rx) s2) \<and> at_eol t"
proof -
  from assms obtain rest where
    "concat (map (\<lambda>(a, s1).
             concat (map (\<lambda>(b, s2).
               concat (map (\<lambda>(c, s3).
                 map (\<lambda>(e, s4). (a, b, c, s4)) (alts [Eol] s3))
               (alts (group3 rx) s2)))
             (alts (group2 rx) s1)))
           (alts (group1 rx) s)) = (a, b, c, t) # rest"
    by (auto simp: match_here_def split: list.splits)
  then have "(a, b, c, t) \<in> set (concat (map (\<lambda>(a, s1).
             concat (map (\<lambda>(b, s2).
               concat (map (\<lambda>(c, s3).
                 map (\<lambda>(e, s4). (a, b, c, s4)) (alts [Eol] s3))
               (alts (group3 rx) s2)))
             (alts (group2 rx) s1)))
           (alts (group1 rx) s)))"
    by simp
  then obtain s1 s2 s3 e where
    "(a, s1) \<in> set (alts (group1 rx) s)" "(b, s2) \<in> set (alts (group2 rx) s1)"
    "(c, s3) \<in> set (alts (group3 rx) s2)" "(e, t) \<in> set (alts [Eol] s3)"
    by auto
  then show ?thesis by (auto split: if_splits)
qed

lemma module_regex_match:
  assumes "module_regex url = Some rx" and "match_here rx s = Some (a, b, c, t)"
  shows "\<exists>u q1 w1 w2 w3 q2.
           a = u @ [q1] @ '','' @ w1 @ '':ref'' @ w2 @ ''=>'' @ w3 @ [q2] \<and>
           url_matches url u \<and> is_quote q1 \<and> is_quote q2 \<and>
           (\<forall>x \<in> set (w1 @ w2 @ w3). is_space x)"
    and "b \<noteq> []" and "\<forall>x \<in> set b. \<not> is_quote x"
    and "\<exists>q ws. c = q # ws \<and> is_quote q \<and> (\<forall>x \<in> set ws. is_space x)"
    and "at_eol t"
proof -
  from assms(1) have rx:
    "group1 rx = map (\<lambda>c. if c = CHR ''.'' then One Dot else One (Lit c)) url @
       [One QuoteC, One (Lit CHR '',''), Star SpaceC, One (Lit CHR '':''), One (Lit CHR ''r''),
        One (Lit CHR ''e''), One (Lit CHR ''f''), Star SpaceC, One (Lit CHR ''=''),
        One (Lit CHR ''>''), Star SpaceC, One QuoteC]"
    "group2 rx = [Plus NotQuote]" "group3 rx = [One QuoteC, Star SpaceC]"
    by (auto simp: module_regex_def url_items_def split: option.splits if_splits)
  from match_here_parts [OF assms(2)] obtain s1 s2 where p:
    "(a, s1) \<in> set (alts (group1 rx) s)" "(b, s2) \<in> set (alts (group2 rx) s1)"
    "(c, t) \<in> set (alts (group3 rx) s2)" "at_eol t" by blast
  show "at_eol t" by fact
  from p(2) show "b \<noteq> []" "\<forall>x \<in> set b. \<not> is_quote x"
    unfolding rx by (auto simp: alts_Plus alts_Nil)
  from p(3) show "\<exists>q ws. c = q # ws \<and> is_quote q \<and> (\<forall>x \<in> set ws. is_space x)"
    unfolding rx by (auto simp: alts_One alts_Star alts_Nil)
  from p(1) obtain u m2 s0 where u: "a = u @ m2" "url_matches url u"
    "(m2, s1) \<in> set (alts [One QuoteC, One (Lit CHR '',''), Star SpaceC, One (Lit CHR '':''), One (Lit CHR ''r''),
        One (Lit CHR ''e''), One (Lit CHR ''f''), Star SpaceC, One (Lit CHR ''=''),
        One (Lit CHR ''>''), Star SpaceC, One QuoteC] s0)"
    unfolding rx alts_url by blast
  from u(3) obtain q1 w1 w2 w3 q2 where
    "m2 = [q1] @ '','' @ w1 @ '':ref'' @ w2 @ ''=>'' @ w3 @ [q2]" "is_quote q1" "is_quote q2"
    "\<forall>x \<in> set (w1 @ w2 @ w3). is_space x"
    by (auto simp: alts_One alts_Star alts_Nil) blast
  with u show "\<exists>u q1 w1 w2 w3 q2.
           a = u @ [q1] @ '','' @ w1 @ '':ref'' @ w2 @ ''=>'' @ w3 @ [q2] \<and>
           url_matches url u \<and> is_quote q1 \<and> is_quote q2 \<and>
           (\<forall>x \<in> set (w1 @ w2 @ w3). is_space x)" by blast
qed

lemma exec_from_match:
  "exec_from rx pre s = Some h \<Longrightarrow>
     \<exists>s'. match_here rx s' = Some (cap1 h, cap2 h, cap3 h, after h)"
proof (induction rx pre s rule: exec_from.induct)
  case (1 rx pre)
  then show ?case by (auto split: option.splits)
next
  case (2 rx pre x xs)
  then show ?case by (cases "match_here rx (x # xs)") auto
qed

lemma subst_tail:
  "CHR ''$'' \<notin> set b \<Longrightarrow> get_substitution h (b @ ''$3'') = b @ cap3 h"
proof (induction b)
  case Nil
  then show ?case by (simp add: is_digit_def digit_val_def capture_def)
next
  case (Cons x b)
  then obtain d t where "b @ ''$3'' = d # t" by (cases b) auto
  with Cons show ?case by auto
qed

lemma subst_template:
  assumes "CHR ''$'' \<notin> set b"
  shows "get_substitution h (''$1'' @ b @ ''$3'') = cap1 h @ b @ cap3 h"
proof -
  obtain e t where et: "b @ ''$3'' = e # t" by (cases b) auto
  have "get_substitution h (CHR ''$'' # CHR ''1'' # e # t) = cap1 h @ get_substitution h (e # t)"
    by (simp add: is_digit_def digit_val_def capture_def)
  with et subst_tail [OF assms, of h] show ?thesis by simp
qed

lemma segments_text: "concat (map text_of (segments rx pre s)) = s"
proof (induction rx pre s rule: segments.induct)
  case (1 rx pre s)
  show ?case
  proof (cases "exec_from rx pre s")
    case None
    then show ?thesis by (subst segments.simps) simp
  next
    case (Some h)
    from exec_from_split [OF Some] obtain k where k: "before h = pre @ k" "s = k @ matched h @ after h"
      by blast
    show ?thesis
    proof (cases "matched h = []")
      case True
      show ?thesis
      proof (cases "after h")
        case Nil
        with Some True k show ?thesis by (subst segments.simps) simp
      next
        case (Cons x xs)
        with 1(1) [OF Some True Cons] Some True k show ?thesis
          by (subst segments.simps) simp
      qed
    next
      case False
      with 1(2) [OF Some False] Some k show ?thesis
        by (subst segments.simps) simp
    qed
  qed
qed

lemma replace_from_segments:
  "replace_from rx tmpl pre s = concat (map (expand tmpl) (segments rx pre s))"
proof (induction rx tmpl pre s rule: replace_from.induct)
  case (1 rx tmpl pre s)
  show ?case
  proof (cases "exec_from rx pre s")
    case None
    then show ?thesis
      by (simp add: segments.simps [of rx pre s] replace_from.simps [of rx tmpl pre s])
  next
    case (Some h)
    show ?thesis
    proof (cases "matched h = []")
      case True
      show ?thesis
      proof (cases "after h")
        case Nil
        with Some True show ?thesis
          by (simp add: segments.simps [of rx pre s] replace_from.simps [of rx tmpl pre s])
      next
        case (Cons x xs)
        with 1(1) [OF Some True Cons] Some True show ?thesis
          by (simp add: segments.simps [of rx pre s] replace_from.simps [of rx tmpl pre s])
      qed
    next
      case False
      with 1(2) [OF Some False] Some show ?thesis
        by (simp add: segments.simps [of rx pre s] replace_from.simps [of rx tmpl pre s])
    qed
  qed
qed

lemma segments_entries:
  "Entry h \<in> set (segments rx pre s) \<Longrightarrow> \<exists>p t. exec_from rx p t = Some h"
proof (induction rx pre s rule: segments.induct)
  case (1 rx pre s)
  show ?case
  proof (cases "exec_from rx pre s")
    case None
    with 1(3) show ?thesis by (simp add: segments.simps [of rx pre s])
  next
    case (Some h')
    show ?thesis
    proof (cases "h = h'")
      case True
      with Some show ?thesis by blast
    next
      case neq: False
      show ?thesis
      proof (cases "matched h' = []")
        case True
        show ?thesis
        proof (cases "after h'")
          case Nil
          with 1(3) Some True neq show ?thesis by (simp add: segments.simps [of rx pre s])
        next
          case (Cons x xs)
          with 1(3) Some True neq have "Entry h \<in> set (segments rx (before h' @ [x]) xs)"
            by (simp add: segments.simps [of rx pre s])
          with 1(1) [OF Some True Cons] show ?thesis .
        qed
      next
        case False
        with 1(3) Some neq have "Entry h \<in> set (segments rx (before h' @ matched h') (after h'))"
          by (simp add: segments.simps [of rx pre s])
        with 1(2) [OF Some False] show ?thesis .
      qed
    qed
  qed
qed

lemma expand_with_ref:
  "CHR ''$'' \<notin> set b \<Longrightarrow> expand (''$1'' @ b @ ''$3'') sg = with_ref b sg"
  using subst_template [of b] by (cases sg) simp_all

lemma url_matches_length: "url_matches u m \<Longrightarrow> length m = length u"
  by (simp add: url_matches_def list_all2_lengthD)

lemma url_matches_plain: "url_matches u m \<Longrightarrow> CHR ''.'' \<notin> set u \<Longrightarrow> m = u"
  unfolding url_matches_def
  by (induction u m rule: list_all2_induct) auto

lemma hit_shape:
  assumes "module_regex url = Some rx" and "exec_from rx pre s = Some h"
  shows "url_matches url (take (length url) (cap1 h))"
    and "is_quote (cap1 h ! length url)"
    and "cap1 h \<noteq> []" and "is_quote (last (cap1 h))"
    and "cap2 h \<noteq> []" and "\<forall>x \<in> set (cap2 h). \<not> is_quote x"
    and "cap3 h \<noteq> []" and "is_quote (hd (cap3 h))"
    and "\<forall>x \<in> set (tl (cap3 h)). is_space x"
    and "at_eol (after h)" and "matched h \<noteq> []"
proof -
  from exec_from_match [OF assms(2)] obtain s' where
    m: "match_here rx s' = Some (cap1 h, cap2 h, cap3 h, after h)" by blast
  from module_regex_match(1) [OF assms(1) m] obtain u q1 w1 w2 w3 q2 where
    a: "cap1 h = u @ [q1] @ '','' @ w1 @ '':ref'' @ w2 @ ''=>'' @ w3 @ [q2]"
    and u: "url_matches url u" and q: "is_quote q1" "is_quote q2" by blast
  from u have len: "length u = length url" by (rule url_matches_length)
  from a len u show "url_matches url (take (length url) (cap1 h))" by simp
  from a len q show "is_quote (cap1 h ! length url)" by (simp add: nth_append)
  from a show "cap1 h \<noteq> []" by simp
  have "cap1 h = (u @ [q1] @ '','' @ w1 @ '':ref'' @ w2 @ ''=>'' @ w3) @ [q2]"
    by (simp add: a)
  then have "last (cap1 h) = q2" by (simp only: last_snoc)
  with q show "is_quote (last (cap1 h))" by simp
  from module_regex_match(2,3) [OF assms(1) m]
  show c2: "cap2 h \<noteq> []" and "\<forall>x \<in> set (cap2 h). \<not> is_quote x" .
  from module_regex_match(4) [OF assms(1) m] obtain q ws where
    c: "cap3 h = q # ws" "is_quote q" "\<forall>x \<in> set ws. is_space x" by blast
  then show "cap3 h \<noteq> []" "is_quote (hd (cap3 h))" "\<forall>x \<in> set (tl (cap3 h)). is_space x"
    by simp_all
  from module_regex_match(5) [OF assms(1) m] show "at_eol (after h)" .
  from c2 show "matched h \<noteq> []" by (simp add: matched_def)
qed

lemma replace_from_hit:
  assumes "exec_from rx pre s = Some h" and "matched h \<noteq> []"
  shows "replace_from rx tmpl pre s =
           drop (length pre) (before h) @ get_substitution h tmpl @
           replace_from rx tmpl (before h @ matched h) (after h)"
  using assms by (subst replace_from.simps) simp

lemma replace_from_none: "exec_from rx pre s = None \<Longrightarrow> replace_from rx tmpl pre s = s"
  by (subst replace_from.simps) simp


lemma js_replace_frame:
  assumes "CHR ''$'' \<notin> set b"
  shows "js_replace content rx (''$1'' @ b @ ''$3'') =
           concat (map (with_ref b) (segments rx [] content))"
proof -
  have "map (expand (''$1'' @ b @ ''$3'')) sgs = map (with_ref b) sgs" for sgs
    using expand_with_ref [OF assms] by (induction sgs) simp_all
  then show ?thesis by (simp only: js_replace_def replace_from_segments)
qed

text \<open>
  What a rewrite leaves as it was: the value assigned to \<^verbatim>\<open>new_content\<close> is the text
  read with the new entry appended, or the text read with the reference of each match
  replaced by the branch name of the event (one without a dollar sign). Every match
  has, right before a quote, a text that matches the URL of the event read as a
  pattern, the URL itself when it has no dot.
\<close>

lemma rewrite_frame:
  assumes "module_regex (repourl ev) = Some rx" and "CHR ''$'' \<notin> set (branch ev)"
    and "new_content env ev rx content = Some c"
  shows "(c = content @ new_entry ev \<or>
          c = concat (map (with_ref (branch ev)) (segments rx [] content))) \<and>
         concat (map text_of (segments rx [] content)) = content \<and>
         (\<forall>h. Entry h \<in> set (segments rx [] content) \<longrightarrow>
            url_matches (repourl ev) (take (length (repourl ev)) (cap1 h)) \<and>
            is_quote (cap1 h ! length (repourl ev)) \<and>
            (CHR ''.'' \<notin> set (repourl ev) \<longrightarrow>
               take (length (repourl ev)) (cap1 h) = repourl ev))"
proof -
  have "c = content @ new_entry ev \<or>
      c = concat (map (with_ref (branch ev)) (segments rx [] content))"
    using assms(3) js_replace_frame [OF assms(2), of content rx]
    by (auto simp: new_content_def split: option.splits if_splits)
  moreover have "concat (map text_of (segments rx [] content)) = content"
    by (rule segments_text)
  moreover have "url_matches (repourl ev) (take (length (repourl ev)) (cap1 h)) \<and>
            is_quote (cap1 h ! length (repourl ev)) \<and>
            (CHR ''.'' \<notin> set (repourl ev) \<longrightarrow>
               take (length (repourl ev)) (cap1 h) = repourl ev)"
    if "Entry h \<in> set (segments rx [] content)" for h
  proof -
    from segments_entries [OF that] obtain p t where e: "exec_from rx p t = Some h" by blast
    from hit_shape(1,2) [OF assms(1) e] show ?thesis
      by (auto dest: url_matches_plain)
  qed
  ultimately show ?thesis by blast
qed

text \<open>
  A text in which the pattern finds a match holds the URL, read as a pattern, with a
  quote right after it. For a URL without a dot that is the URL itself, followed by a
  quote, somewhere in the text.
\<close>

lemma starts_url_quote_append: "starts_url_quote u s \<Longrightarrow> starts_url_quote u (s @ t)"
  by (simp add: starts_url_quote_def nth_append)

lemma starts_url_then_quote: "starts_url_quote u s \<Longrightarrow> url_then_quote u s"
  by (cases s) (simp_all add: starts_url_quote_def)

lemma url_then_quote_append: "url_then_quote u s \<Longrightarrow> url_then_quote u (k @ s)"
  by (induction k) simp_all

lemma starts_url_quote_plain:
  assumes "CHR ''.'' \<notin> set u"
  shows "starts_url_quote u s \<longleftrightarrow> (\<exists>q t. is_quote q \<and> s = u @ q # t)"
proof
  assume a: "starts_url_quote u s"
  then have l: "length u < length s" and m: "url_matches u (take (length u) s)"
    and q: "is_quote (s ! length u)" by (simp_all add: starts_url_quote_def)
  from url_matches_plain [OF m assms] have t: "take (length u) s = u" .
  from l have "drop (length u) s = s ! length u # drop (Suc (length u)) s"
    by (simp add: Cons_nth_drop_Suc)
  with t have "s = u @ s ! length u # drop (Suc (length u)) s"
    by (metis append_take_drop_id)
  with q show "\<exists>q t. is_quote q \<and> s = u @ q # t" by blast
next
  assume "\<exists>q t. is_quote q \<and> s = u @ q # t"
  then obtain q t where q: "is_quote q" and s: "s = u @ q # t" by blast
  from assms have "url_matches u u"
    unfolding url_matches_def by (induction u) auto
  with q s show "starts_url_quote u s" by (simp add: starts_url_quote_def)
qed

lemma url_then_quote_plain:
  assumes "CHR ''.'' \<notin> set u"
  shows "url_then_quote u s \<longleftrightarrow> (\<exists>k q t. is_quote q \<and> s = k @ u @ q # t)"
proof (induction s)
  case Nil
  show ?case by simp
next
  case (Cons x xs)
  show ?case
  proof
    assume "url_then_quote u (x # xs)"
    then consider "starts_url_quote u (x # xs)" | "url_then_quote u xs" by auto
    then show "\<exists>k q t. is_quote q \<and> x # xs = k @ u @ q # t"
    proof cases
      case 1
      with starts_url_quote_plain [OF assms] obtain q t where
        "is_quote q" "x # xs = [] @ u @ q # t" by auto
      then show ?thesis by blast
    next
      case 2
      with Cons obtain k q t where "is_quote q" "xs = k @ u @ q # t" by blast
      then have "is_quote q \<and> x # xs = (x # k) @ u @ q # t" by simp
      then show ?thesis by blast
    qed
  next
    assume "\<exists>k q t. is_quote q \<and> x # xs = k @ u @ q # t"
    then obtain k q t where q: "is_quote q" and s: "x # xs = k @ u @ q # t" by blast
    show "url_then_quote u (x # xs)"
    proof (cases k)
      case Nil
      with q s have "starts_url_quote u (x # xs)"
        using starts_url_quote_plain [OF assms, of "x # xs"] by auto
      then show ?thesis by simp
    next
      case (Cons y k')
      with s have "xs = k' @ u @ q # t" by simp
      with q Cons.IH have "url_then_quote u xs" by blast
      then show ?thesis by simp
    qed
  qed
qed

lemma exec_from_url_then_quote:
  assumes "module_regex url = Some rx" and "exec_from rx pre s = Some h"
  shows "url_then_quote url s"
proof -
  from exec_from_match [OF assms(2)] obtain s' where
    m: "match_here rx s' = Some (cap1 h, cap2 h, cap3 h, after h)" by blast
  from module_regex_match(1) [OF assms(1) m] obtain u q1 w1 w2 w3 q2 where
    a: "cap1 h = u @ [q1] @ '','' @ w1 @ '':ref'' @ w2 @ ''=>'' @ w3 @ [q2]"
    and u: "url_matches url u" and q: "is_quote q1" by blast
  from u have len: "length u = length url" by (rule url_matches_length)
  from a len u q have "starts_url_quote url (cap1 h)"
    by (simp add: starts_url_quote_def nth_append)
  then have "starts_url_quote url (cap1 h @ cap2 h @ cap3 h @ after h)"
    by (rule starts_url_quote_append)
  then have "url_then_quote url (matched h @ after h)"
    by (simp add: matched_def starts_url_then_quote)
  moreover from exec_from_split [OF assms(2)] obtain k where
    "s = k @ matched h @ after h" by blast
  ultimately show ?thesis by (simp add: url_then_quote_append)
qed

subsection \<open>The steps of a run\<close>

lemma kinds_simps [simp]:
  "kinds [] = {}" "kinds (x # t) = insert (kind_of (fst x)) (kinds t)"
  "kinds (a @ b) = kinds a \<union> kinds b"
  by (auto simp: kinds_def)

lemma cnt_simps [simp]:
  "cnt k [] = 0" "cnt k (x # t) = (if kind_of (fst x) = k then Suc (cnt k t) else cnt k t)"
  "cnt k (a @ b) = cnt k a + cnt k b"
  by (auto simp: cnt_def)

lemma okk_simps [simp]:
  "okk k [] = False" "okk k (x # t) = (kind_of (fst x) = k \<and> snd x = None \<or> okk k t)"
  "okk k (a @ b) = (okk k a \<or> okk k b)"
  by (auto simp: okk_def)

lemma clean_simps [simp]:
  "clean [] = True" "clean (x # t) = (snd x = None \<and> clean t)"
  "clean (a @ b) = (clean a \<and> clean b)"
  by (auto simp: clean_def)

lemma cnt_zero: "k \<notin> kinds t \<Longrightarrow> cnt k t = 0"
  by (induction t) auto

lemma okk_kinds: "okk k t \<Longrightarrow> k \<in> kinds t"
  by (induction t) auto

lemma shape_append: "clean a \<Longrightarrow> shape r b \<Longrightarrow> shape r (a @ b)"
  by (auto simp: shape_def butlast_append split: sum.splits)

lemmas step_defs = bindS_def call_def ret_def outcome_def fault_def

lemma bindS_cases:
  assumes "bindS m f s = (r, s'')"
  obtains (fails) e where "m s = (Inl e, s'')" "r = Inl e"
  | (returns) x s' where "m s = (Inr x, s')" "f x s' = (r, s'')"
  using assms by (auto simp: bindS_def split: prod.splits sum.splits)

lemma shape_Inl_not_clean: "shape (Inl e) t \<Longrightarrow> \<not> clean t"
  by (cases t rule: rev_cases) (auto simp: shape_def)

lemma checkout_branch_fails:
  assumes "checkout_branch env ev w s = (Inl e, s')"
  shows "\<exists>acts. trace s' = trace s @ acts \<and> kinds acts \<subseteq> {KGit, KNewBranch} \<and>
           shape (Inl e :: error + unit) acts \<and> \<not> okk KNewBranch acts \<and>
           commitNeeded s' = commitNeeded s \<and> \<not> new_branch_world w"
  using assms
  by (auto simp: checkout_branch_def step_defs shape_def new_branch_world_def
           split: option.splits sum.splits if_splits)

lemma checkout_branch_returns:
  assumes "checkout_branch env ev w s = (Inr x, s')"
  shows "\<exists>acts. trace s' = trace s @ acts \<and> kinds acts \<subseteq> {KGit, KNewBranch} \<and> clean acts \<and>
           (okk KNewBranch acts \<longleftrightarrow> new_branch_world w) \<and>
           (okk KNewBranch acts \<longrightarrow> fullDeploymentNeeded s') \<and>
           (commitNeeded s' \<longleftrightarrow> commitNeeded s \<or> okk KNewBranch acts)"
  using assms
  by (auto simp: checkout_branch_def step_defs new_branch_world_def
           split: option.splits sum.splits if_splits)

lemma update_puppetfile_eq:
  "update_puppetfile env ev rx w s =
     (case readFile_res w of
        Inl e \<Rightarrow> (Inl e, s\<lparr>trace := trace s @ [(ReadFile (pfile env), Some e)]\<rparr>)
      | Inr content \<Rightarrow>
          (case new_content env ev rx content of
             None \<Rightarrow> (Inr (), s\<lparr>trace := trace s @ [(ReadFile (pfile env), None)]\<rparr>)
           | Some c \<Rightarrow>
               (case writeFile_res w of
                  Some e \<Rightarrow>
                    (Inl e, s\<lparr>trace := trace s @
                       [(ReadFile (pfile env), None), (WriteFile (pfile env) c, Some e)]\<rparr>)
                | None \<Rightarrow>
                    (Inr (), s\<lparr>trace := trace s @
                       [(ReadFile (pfile env), None), (WriteFile (pfile env) c, None)],
                       commitNeeded := True\<rparr>))))"
  by (simp add: update_puppetfile_def new_content_def step_defs
           split: option.splits sum.splits)

lemma update_puppetfile_fails:
  assumes "update_puppetfile env ev rx w s = (Inl e, s')"
  shows "\<exists>acts. trace s' = trace s @ acts \<and> kinds acts \<subseteq> {KRead, KWrite} \<and>
           shape (Inl e :: error + unit) acts \<and>
           fullDeploymentNeeded s' = fullDeploymentNeeded s \<and>
           (commitNeeded s' \<longleftrightarrow> commitNeeded s \<or> okk KWrite acts) \<and>
           \<not> update_returns env ev rx w"
  using assms
  by (auto simp: update_puppetfile_eq update_returns_def shape_def
           split: option.splits sum.splits)

lemma update_puppetfile_returns:
  assumes "update_puppetfile env ev rx w s = (Inr x, s')"
  shows "\<exists>acts. trace s' = trace s @ acts \<and> kinds acts \<subseteq> {KRead, KWrite} \<and> clean acts \<and>
           acts \<noteq> [] \<and> fullDeploymentNeeded s' = fullDeploymentNeeded s \<and>
           (commitNeeded s' \<longleftrightarrow> commitNeeded s \<or> okk KWrite acts) \<and>
           (no_rewrite env ev rx w \<longrightarrow> KWrite \<notin> kinds acts)"
  using assms
  by (auto simp: update_puppetfile_eq no_rewrite_def split: option.splits sum.splits)

lemma commit_push_fails:
  assumes "commit_push env ev w s = (Inl e, s')"
  shows "\<exists>acts. trace s' = trace s @ acts \<and> kinds acts \<subseteq> {KCommit, KPush} \<and>
           shape (Inl e :: error + unit) acts \<and>
           fullDeploymentNeeded s' = fullDeploymentNeeded s \<and> commitNeeded s' = commitNeeded s \<and>
           cnt KCommit acts \<le> 1 \<and> cnt KPush acts \<le> 1 \<and>
           (KCommit \<in> kinds acts \<longleftrightarrow> commitNeeded s) \<and>
           (KPush \<in> kinds acts \<longrightarrow> commitNeeded s \<or> fullDeploymentNeeded s) \<and>
           (okk KCommit acts \<or> \<not> commitNeeded s \<longrightarrow>
              (KPush \<in> kinds acts \<longleftrightarrow> commitNeeded s \<or> fullDeploymentNeeded s)) \<and>
           (commit_res w = None \<longrightarrow> KCommit \<in> kinds acts \<longrightarrow> okk KCommit acts)"
  using assms
  by (auto simp: commit_push_def step_defs shape_def split: option.splits sum.splits if_splits)

lemma commit_push_returns:
  assumes "commit_push env ev w s = (Inr x, s')"
  shows "\<exists>acts. trace s' = trace s @ acts \<and> kinds acts \<subseteq> {KCommit, KPush} \<and> clean acts \<and>
           fullDeploymentNeeded s' = fullDeploymentNeeded s \<and> commitNeeded s' = commitNeeded s \<and>
           cnt KCommit acts \<le> 1 \<and> cnt KPush acts \<le> 1 \<and>
           (KCommit \<in> kinds acts \<longleftrightarrow> commitNeeded s) \<and>
           (KPush \<in> kinds acts \<longleftrightarrow> commitNeeded s \<or> fullDeploymentNeeded s) \<and>
           (KCommit \<in> kinds acts \<longrightarrow> okk KCommit acts)"
  using assms
  by (auto simp: commit_push_def step_defs split: option.splits sum.splits if_splits)

lemma deploy_sum:
  assumes "deploy env ev w s = (r, s')"
  shows "\<exists>acts. trace s' = trace s @ acts \<and> kinds acts \<subseteq> {KJob, KRemove, KCbk} \<and> shape r acts \<and>
           fullDeploymentNeeded s' = fullDeploymentNeeded s \<and> commitNeeded s' = commitNeeded s \<and>
           cnt KCbk acts \<le> 1 \<and> cnt KRemove acts \<le> 1 \<and> cnt KJob acts = 1 \<and>
           (r = Inr () \<longrightarrow>
              acts = [(RunJob (rundeck env ev
                         (if fullDeploymentNeeded s then deploy_env else deploy_mod)), None),
                      (Remove (gitdir env), None), (Cbk None, None)]) \<and>
           (\<forall>e. r = Inl e \<longrightarrow> \<not> okk KCbk acts \<and> (KCbk \<in> kinds acts \<longrightarrow> cbk_res w None = Some e))"
  using assms
  by (auto simp: deploy_def step_defs shape_def split: option.splits sum.splits if_splits)

lemma try_postD:
  assumes "try_post env ev rx w r s a1 a2 a3 a4"
  shows "trace s = a1 @ a2 @ a3 @ a4"
    and "kinds a1 \<subseteq> {KGit, KNewBranch} \<and> kinds a2 \<subseteq> {KRead, KWrite}"
    and "kinds a3 \<subseteq> {KCommit, KPush} \<and> kinds a4 \<subseteq> {KJob, KRemove, KCbk}"
    and "shape r (a1 @ a2 @ a3 @ a4)"
    and "(okk KNewBranch a1 \<longleftrightarrow> new_branch_world w)"
    and "(okk KNewBranch a1 \<longrightarrow> fullDeploymentNeeded s)"
    and "(commitNeeded s \<longleftrightarrow> okk KNewBranch a1 \<or> okk KWrite a2)"
    and "(no_rewrite env ev rx w \<longrightarrow> KWrite \<notin> kinds a2)"
    and "cnt KCommit a3 \<le> 1 \<and> cnt KPush a3 \<le> 1"
    and "(KCommit \<in> kinds a3 \<longrightarrow> commitNeeded s)"
    and "(KPush \<in> kinds a3 \<longrightarrow> commitNeeded s \<or> fullDeploymentNeeded s)"
    and "(clean (a1 @ a2) \<and> a2 \<noteq> [] \<longrightarrow>
        (KCommit \<in> kinds a3 \<longleftrightarrow> commitNeeded s) \<and>
        (okk KCommit a3 \<or> \<not> commitNeeded s \<longrightarrow>
           (KPush \<in> kinds a3 \<longleftrightarrow> commitNeeded s \<or> fullDeploymentNeeded s)))"
    and "(KJob \<in> kinds a4 \<longrightarrow> clean (a1 @ a2 @ a3) \<and> a2 \<noteq> [])"
    and "(new_branch_world w \<longrightarrow> clean a1) \<and> (clean a1 \<longrightarrow> a2 \<noteq> [])"
    and "(clean a1 \<and> update_returns env ev rx w \<longrightarrow> clean a2)"
    and "(commit_res w = None \<longrightarrow> KCommit \<in> kinds a3 \<longrightarrow> okk KCommit a3)"
    and "cnt KCbk a4 \<le> 1 \<and> cnt KRemove a4 \<le> 1 \<and> cnt KJob a4 \<le> 1"
    and "(r = Inr () \<longrightarrow>
        a4 = [(RunJob (rundeck env ev
                 (if fullDeploymentNeeded s then deploy_env else deploy_mod)), None),
              (Remove (gitdir env), None), (Cbk None, None)])"
    and "(\<forall>e. r = Inl e \<longrightarrow> \<not> okk KCbk a4 \<and> (KCbk \<in> kinds a4 \<longrightarrow> cbk_res w None = Some e))"
  using assms unfolding try_post_def
  by - (elim conjE, ((intro conjI)?; assumption))+

lemma try_block_sum:
  assumes "try_block env ev rx w init = (r, s)"
  shows "\<exists>a1 a2 a3 a4. try_post env ev rx w r s a1 a2 a3 a4"
  using assms unfolding try_block_def
proof (cases rule: bindS_cases)
  case (fails e)
  from checkout_branch_fails [OF fails(1)] obtain a1 where a1:
    "trace s = trace init @ a1" "kinds a1 \<subseteq> {KGit, KNewBranch}"
    "shape (Inl e :: error + unit) a1" "\<not> okk KNewBranch a1"
    "commitNeeded s = commitNeeded init" "\<not> new_branch_world w"
    by (elim exE conjE) (rule that)
  from a1(3) have nc: "\<not> clean a1" by (rule shape_Inl_not_clean)
  from a1 nc fails(2) have "try_post env ev rx w r s a1 [] [] []"
    by (simp add: try_post_def init_def)
  then show ?thesis by blast
next
  case cb: (returns x1 s1)
  from checkout_branch_returns [OF cb(1)] obtain a1 where a1:
    "trace s1 = trace init @ a1" "kinds a1 \<subseteq> {KGit, KNewBranch}" "clean a1"
    "okk KNewBranch a1 \<longleftrightarrow> new_branch_world w"
    "okk KNewBranch a1 \<longrightarrow> fullDeploymentNeeded s1"
    "commitNeeded s1 \<longleftrightarrow> commitNeeded init \<or> okk KNewBranch a1"
    by (elim exE conjE) (rule that)
  from cb(2) show ?thesis
  proof (cases rule: bindS_cases)
    case (fails e)
    from update_puppetfile_fails [OF fails(1)] obtain a2 where a2:
      "trace s = trace s1 @ a2" "kinds a2 \<subseteq> {KRead, KWrite}"
      "shape (Inl e :: error + unit) a2"
      "fullDeploymentNeeded s = fullDeploymentNeeded s1"
      "commitNeeded s \<longleftrightarrow> commitNeeded s1 \<or> okk KWrite a2"
      "\<not> update_returns env ev rx w"
      by (elim exE conjE) (rule that)
    have nr: "\<not> no_rewrite env ev rx w"
      using a2(6) by (auto simp: no_rewrite_def update_returns_def)
    from a2(3) have nc: "\<not> clean a2" by (rule shape_Inl_not_clean)
    from a2(3) have ne: "a2 \<noteq> []" by (simp add: shape_def)
    from shape_append [OF a1(3) a2(3)] have sh: "shape (Inl e :: error + unit) (a1 @ a2)" .
    from a1 a2 nr fails(2) nc ne sh have "try_post env ev rx w r s a1 a2 [] []"
      by (simp add: try_post_def init_def)
    then show ?thesis by blast
  next
    case up: (returns x2 s2)
    from update_puppetfile_returns [OF up(1)] obtain a2 where a2:
      "trace s2 = trace s1 @ a2" "kinds a2 \<subseteq> {KRead, KWrite}" "clean a2" "a2 \<noteq> []"
      "fullDeploymentNeeded s2 = fullDeploymentNeeded s1"
      "commitNeeded s2 \<longleftrightarrow> commitNeeded s1 \<or> okk KWrite a2"
      "no_rewrite env ev rx w \<longrightarrow> KWrite \<notin> kinds a2"
      by (elim exE conjE) (rule that)
    from up(2) show ?thesis
    proof (cases rule: bindS_cases)
      case (fails e)
      from commit_push_fails [OF fails(1)] obtain a3 where a3:
        "trace s = trace s2 @ a3" "kinds a3 \<subseteq> {KCommit, KPush}"
        "shape (Inl e :: error + unit) a3"
        "fullDeploymentNeeded s = fullDeploymentNeeded s2" "commitNeeded s = commitNeeded s2"
        "cnt KCommit a3 \<le> 1" "cnt KPush a3 \<le> 1"
        "KCommit \<in> kinds a3 \<longleftrightarrow> commitNeeded s2"
        "KPush \<in> kinds a3 \<longrightarrow> commitNeeded s2 \<or> fullDeploymentNeeded s2"
        "okk KCommit a3 \<or> \<not> commitNeeded s2 \<longrightarrow>
              (KPush \<in> kinds a3 \<longleftrightarrow> commitNeeded s2 \<or> fullDeploymentNeeded s2)"
        "commit_res w = None \<longrightarrow> KCommit \<in> kinds a3 \<longrightarrow> okk KCommit a3"
        by (elim exE conjE) (rule that)
      from a1(3) a2(3) have "clean (a1 @ a2)" by simp
      from shape_append [OF this a3(3)] have sh: "shape (Inl e :: error + unit) (a1 @ a2 @ a3)"
        by simp
      from a1 a2 a3 fails(2) sh have "try_post env ev rx w r s a1 a2 a3 []"
        by (simp add: try_post_def init_def)
      then show ?thesis by blast
    next
      case cp: (returns x3 s3)
      from commit_push_returns [OF cp(1)] obtain a3 where a3:
        "trace s3 = trace s2 @ a3" "kinds a3 \<subseteq> {KCommit, KPush}" "clean a3"
        "fullDeploymentNeeded s3 = fullDeploymentNeeded s2" "commitNeeded s3 = commitNeeded s2"
        "cnt KCommit a3 \<le> 1" "cnt KPush a3 \<le> 1"
        "KCommit \<in> kinds a3 \<longleftrightarrow> commitNeeded s2"
        "KPush \<in> kinds a3 \<longleftrightarrow> commitNeeded s2 \<or> fullDeploymentNeeded s2"
        "KCommit \<in> kinds a3 \<longrightarrow> okk KCommit a3"
        by (elim exE conjE) (rule that)
      from deploy_sum [OF cp(2)] obtain a4 where a4:
        "trace s = trace s3 @ a4" "kinds a4 \<subseteq> {KJob, KRemove, KCbk}" "shape r a4"
        "fullDeploymentNeeded s = fullDeploymentNeeded s3" "commitNeeded s = commitNeeded s3"
        "cnt KCbk a4 \<le> 1" "cnt KRemove a4 \<le> 1" "cnt KJob a4 = 1"
        "r = Inr () \<longrightarrow>
              a4 = [(RunJob (rundeck env ev
                         (if fullDeploymentNeeded s3 then deploy_env else deploy_mod)), None),
                      (Remove (gitdir env), None), (Cbk None, None)]"
        "\<forall>e. r = Inl e \<longrightarrow> \<not> okk KCbk a4 \<and> (KCbk \<in> kinds a4 \<longrightarrow> cbk_res w None = Some e)"
        by (elim exE conjE) (rule that)
      from a1(3) a2(3) a3(3) have "clean (a1 @ a2 @ a3)" by simp
      from shape_append [OF this a4(3)] have sh: "shape r (a1 @ a2 @ a3 @ a4)" by simp
      from a1 a2 a3 a4 sh have "try_post env ev rx w r s a1 a2 a3 a4"
        by (simp add: try_post_def init_def)
      then show ?thesis by blast
    qed
  qed
qed

lemma catch_block_sum:
  assumes "catch_block env w err s = (r, s')"
  shows "\<exists>k. trace s' = trace s @ k \<and> kinds k \<subseteq> {KChdir, KRemove, KCbk} \<and>
           fullDeploymentNeeded s' = fullDeploymentNeeded s \<and> commitNeeded s' = commitNeeded s \<and>
           k \<noteq> [] \<and> cnt KCbk k \<le> 1 \<and>
           (chdir_res w = None \<and> remove_catch_res w = None \<longrightarrow>
              k = [(Chdir (cwd env), None), (Remove (gitdir env), None),
                   (Cbk (Some err), cbk_res w (Some err))] \<and>
              r = outcome (cbk_res w (Some err))) \<and>
           (chdir_res w \<noteq> None \<or> remove_catch_res w \<noteq> None \<longrightarrow>
              KCbk \<notin> kinds k \<and> \<not> okk KRemove k \<and> (\<exists>e. r = Inl e))"
  using assms
  by (auto simp: catch_block_def step_defs split: option.splits sum.splits if_splits)

text \<open>What a run leaves: the calls of the \<^verbatim>\<open>try\<close>, then those of the \<^verbatim>\<open>catch\<close>.\<close>

lemma run_sum:
  assumes "runModify env ev w = Some r"
  obtains rx rt s a1 a2 a3 a4 k where
    "module_regex (repourl ev) = Some rx"
    "try_post env ev rx w rt s a1 a2 a3 a4"
    "calls r = a1 @ a2 @ a3 @ a4 @ k"
    "full_flag r = fullDeploymentNeeded s" "commit_flag r = commitNeeded s"
    "kinds k \<subseteq> {KChdir, KRemove, KCbk}" "cnt KCbk k \<le> 1"
    "rt = Inr () \<longrightarrow> k = [] \<and> uncaught r = None"
    "\<forall>err. rt = Inl err \<longrightarrow> k \<noteq> [] \<and>
       (chdir_res w = None \<and> remove_catch_res w = None \<longrightarrow>
          k = [(Chdir (cwd env), None), (Remove (gitdir env), None),
               (Cbk (Some err), cbk_res w (Some err))] \<and>
          uncaught r = cbk_res w (Some err)) \<and>
       (chdir_res w \<noteq> None \<or> remove_catch_res w \<noteq> None \<longrightarrow>
          KCbk \<notin> kinds k \<and> \<not> okk KRemove k \<and> uncaught r \<noteq> None)"
proof -
  from assms obtain rx where rx: "module_regex (repourl ev) = Some rx"
    by (auto simp: runModify_def split: option.splits)
  obtain rt s where tb: "try_block env ev rx w init = (rt, s)" by (cases "try_block env ev rx w init")
  from try_block_sum [OF tb] obtain a1 a2 a3 a4 where post: "try_post env ev rx w rt s a1 a2 a3 a4"
    by blast
  then have tr: "trace s = a1 @ a2 @ a3 @ a4" by (simp add: try_post_def)
  show thesis
  proof (cases rt)
    case (Inr u)
    with assms rx tb have "r = finish (Inr (), s)" by (simp add: runModify_def)
    with Inr tr post rx show thesis
      by (intro that [of rx rt s a1 a2 a3 a4 "[]"]) (simp_all add: finish_def)
  next
    case (Inl err)
    obtain r' s' where cb: "catch_block env w err s = (r', s')"
      by (cases "catch_block env w err s")
    from catch_block_sum [OF cb] obtain k where k:
      "trace s' = trace s @ k" "kinds k \<subseteq> {KChdir, KRemove, KCbk}"
      "fullDeploymentNeeded s' = fullDeploymentNeeded s" "commitNeeded s' = commitNeeded s"
      "k \<noteq> []" "cnt KCbk k \<le> 1"
      "chdir_res w = None \<and> remove_catch_res w = None \<longrightarrow>
              k = [(Chdir (cwd env), None), (Remove (gitdir env), None),
                   (Cbk (Some err), cbk_res w (Some err))] \<and>
              r' = outcome (cbk_res w (Some err))"
      "chdir_res w \<noteq> None \<or> remove_catch_res w \<noteq> None \<longrightarrow>
              KCbk \<notin> kinds k \<and> \<not> okk KRemove k \<and> (\<exists>e. r' = Inl e)"
      by (elim exE conjE) (rule that)
    from assms rx tb Inl cb have r: "r = finish (r', s')" by (simp add: runModify_def)
    have unc: "uncaught r = (case r' of Inl e \<Rightarrow> Some e | Inr _ \<Rightarrow> None)"
      by (simp add: r finish_def)
    have u1: "chdir_res w = None \<and> remove_catch_res w = None \<longrightarrow>
        uncaught r = cbk_res w (Some err)"
      using k(7) unc by (auto simp: outcome_def split: option.splits)
    have u2: "chdir_res w \<noteq> None \<or> remove_catch_res w \<noteq> None \<longrightarrow> uncaught r \<noteq> None"
      using k(8) unc by auto
    have fl: "full_flag r = fullDeploymentNeeded s" "commit_flag r = commitNeeded s"
      "calls r = a1 @ a2 @ a3 @ a4 @ k"
      using k(1,3,4) tr by (simp_all add: r finish_def)
    have last: "\<forall>e. rt = Inl e \<longrightarrow> k \<noteq> [] \<and>
       (chdir_res w = None \<and> remove_catch_res w = None \<longrightarrow>
          k = [(Chdir (cwd env), None), (Remove (gitdir env), None),
               (Cbk (Some e), cbk_res w (Some e))] \<and>
          uncaught r = cbk_res w (Some e)) \<and>
       (chdir_res w \<noteq> None \<or> remove_catch_res w \<noteq> None \<longrightarrow>
          KCbk \<notin> kinds k \<and> \<not> okk KRemove k \<and> uncaught r \<noteq> None)"
      using Inl k(5,7,8) u1 u2 by simp
    from Inl show thesis
      by (intro that [of rx rt s a1 a2 a3 a4 k] rx post fl k(2) k(6) last) simp
  qed
qed

lemma n_calls_cnt: "n_calls k r = cnt k (calls r)"
  by (simp add: n_calls_def)

lemma succeeded_okk: "succeeded k r = okk k (calls r)"
  by (simp add: succeeded_def)

lemma cnt_pos: "0 < cnt k t \<longleftrightarrow> k \<in> kinds t"
  by (induction t) auto

lemma clean_by_kinds:
  "kinds a \<subseteq> K \<Longrightarrow> \<forall>x \<in> set a. kind_of (fst x) \<in> K \<longrightarrow> snd x = None \<Longrightarrow> clean a"
  by (auto simp: kinds_def clean_def)

lemma okk_by_kind:
  "k \<in> kinds t \<Longrightarrow> \<forall>x \<in> set t. kind_of (fst x) = k \<longrightarrow> snd x = None \<Longrightarrow> okk k t"
  by (auto simp: kinds_def okk_def)

subsection \<open>The sample runs\<close>

lemma module_regex_ntp: "module_regex (repourl ev_ntp) = Some rx_ntp"
  by (simp add: rx_ntp_def module_regex_def url_items_def is_syntax_char_def ev_ntp_def)

lemma new_content_old: "new_content env0 ev_ntp rx_ntp pf_old = Some pf_feat"
  by (simp add: new_content_def rx_ntp_def regex_defs sample_defs puppetfileBranchName_def)

lemma new_content_feat: "new_content env0 ev_ntp rx_ntp pf_feat = None"
  by (simp add: new_content_def rx_ntp_def regex_defs sample_defs puppetfileBranchName_def)

lemma ev_ntp_fields:
  "pfrepo ev_ntp = ''git@host:puppetfile''" "branch ev_ntp = ''feat''"
  "reponame ev_ntp = ''ntp''" "puppetfileBranchName env0 ev_ntp = ''feat''"
  by (simp_all add: ev_ntp_def puppetfileBranchName_def)

lemmas run_eval =
  runModify_def try_block_def catch_block_def checkout_branch_def update_puppetfile_eq
  commit_push_def deploy_def step_defs finish_def init_def module_regex_ntp ev_ntp_fields

lemma run_rewrite:
  "runModify env0 ev_ntp (w_ok pf_old) = Some
     \<lparr>calls =
        [(Clone (gitdir env0) ''git@host:puppetfile'', None), (Fetch (gitdir env0), None),
         (BranchExist ''feat'' (gitdir env0), None),
         (CheckoutExisting ''feat'' (gitdir env0), None),
         (ReadFile (pfile env0), None), (WriteFile (pfile env0) pf_feat, None),
         (Commit ''ntp'' ''feat'' (gitdir env0), None), (Push ''feat'' (gitdir env0), None),
         (RunJob (rundeck env0 ev_ntp deploy_mod), None), (Remove (gitdir env0), None),
         (Cbk None, None)],
      full_flag = False, commit_flag = True, uncaught = None\<rparr>"
  by (simp add: run_eval w_ok_def new_content_old)

lemma run_steady:
  "runModify env0 ev_ntp (w_ok pf_feat) = Some
     \<lparr>calls =
        [(Clone (gitdir env0) ''git@host:puppetfile'', None), (Fetch (gitdir env0), None),
         (BranchExist ''feat'' (gitdir env0), None),
         (CheckoutExisting ''feat'' (gitdir env0), None),
         (ReadFile (pfile env0), None),
         (RunJob (rundeck env0 ev_ntp deploy_mod), None), (Remove (gitdir env0), None),
         (Cbk None, None)],
      full_flag = False, commit_flag = False, uncaught = None\<rparr>"
  by (simp add: run_eval w_ok_def new_content_feat)

lemma run_new_branch:
  "runModify env0 ev_ntp (w_new pf_feat) = Some
     \<lparr>calls =
        [(Clone (gitdir env0) ''git@host:puppetfile'', None), (Fetch (gitdir env0), None),
         (BranchExist ''feat'' (gitdir env0), None),
         (CheckoutNew ''feat'' (gitdir env0), None),
         (ReadFile (pfile env0), None),
         (Commit ''ntp'' ''feat'' (gitdir env0), None), (Push ''feat'' (gitdir env0), None),
         (RunJob (rundeck env0 ev_ntp deploy_env), None), (Remove (gitdir env0), None),
         (Cbk None, None)],
      full_flag = True, commit_flag = True, uncaught = None\<rparr>"
  by (simp add: run_eval w_new_def w_ok_def new_content_feat)

lemma run_clone_fails:
  "runModify env0 ev_ntp w_clone_fails = Some
     \<lparr>calls =
        [(Clone (gitdir env0) ''git@host:puppetfile'', Some (Error ''clone'')),
         (Chdir (cwd env0), None), (Remove (gitdir env0), None),
         (Cbk (Some (Error ''clone'')), None)],
      full_flag = False, commit_flag = False, uncaught = None\<rparr>"
  by (simp add: run_eval w_clone_fails_def w_ok_def)

lemma run_cleanup_fails:
  "runModify env0 ev_ntp w_cleanup_fails = Some
     \<lparr>calls =
        [(Clone (gitdir env0) ''git@host:puppetfile'', Some (Error ''clone'')),
         (Chdir (cwd env0), None), (Remove (gitdir env0), Some (Error ''rm''))],
      full_flag = False, commit_flag = False, uncaught = Some (Error ''rm'')\<rparr>"
  by (simp add: run_eval w_cleanup_fails_def w_clone_fails_def w_ok_def)

lemma exec_feat:
  "exec rx_ntp pf_feat = Some
     \<lparr>before = ''mod \"ntp\",'' @ [CHR 0x0A] @ ''  :git => \"'',
      cap1 = ''git@host:mod/ntp\",'' @ [CHR 0x0A] @ ''  :ref => \"'',
      cap2 = ''feat'', cap3 = ''\"'' @ [CHR 0x0A], after = []\<rparr>"
  by (simp add: rx_ntp_def regex_defs sample_defs)


lemma module_regex_host: "module_regex (repourl ev_host) = Some rx_host"
  by (simp add: rx_host_def module_regex_def url_items_def is_syntax_char_def ev_host_def
        ev_ntp_def)

lemma exec_old: "exec rx_ntp pf_old = Some h_old"
  by (simp add: h_old_def rx_ntp_def regex_defs sample_defs)

lemma exec_empty: "exec rx_ntp [] = None"
  by (simp add: rx_ntp_def regex_defs)

lemmas obs_defs =
  n_calls_def succeeded_def threw_before_push_def new_branch_world_def update_returns_def
  no_rewrite_def

subsection \<open>Claims on the gates and the cleanup\<close>

text \<open>
  C1. The commit and the push each run at most once in a run; a commit is made only
  with \<^verbatim>\<open>commitNeeded\<close> and a push only with \<^verbatim>\<open>commitNeeded\<close> or
  \<^verbatim>\<open>fullDeploymentNeeded\<close>; and in every run that reaches the push step (no call
  before it threw) the push is made exactly when \<^verbatim>\<open>commitNeeded\<close> or
  \<^verbatim>\<open>fullDeploymentNeeded\<close> holds, and the commit exactly when \<^verbatim>\<open>commitNeeded\<close>
  holds.
\<close>

theorem commit_and_push_gates:
  assumes "runModify env ev w = Some r"
  shows "n_calls KCommit r \<le> 1 \<and> n_calls KPush r \<le> 1 \<and>
         (0 < n_calls KCommit r \<longrightarrow> commit_flag r) \<and>
         (0 < n_calls KPush r \<longrightarrow> commit_flag r \<or> full_flag r) \<and>
         (\<not> threw_before_push r \<longrightarrow>
            (0 < n_calls KPush r \<longleftrightarrow> commit_flag r \<or> full_flag r) \<and>
            (0 < n_calls KCommit r \<longleftrightarrow> commit_flag r))"
proof -
  from assms obtain rx rt s a1 a2 a3 a4 k where
    post: "try_post env ev rx w rt s a1 a2 a3 a4" and
    calls: "calls r = a1 @ a2 @ a3 @ a4 @ k" and
    flags: "full_flag r = fullDeploymentNeeded s" "commit_flag r = commitNeeded s" and
    k: "kinds k \<subseteq> {KChdir, KRemove, KCbk}"
    by (rule run_sum)
  note p = try_postD [OF post]
  from p(2,3) have ks: "kinds a1 \<subseteq> {KGit, KNewBranch}" "kinds a2 \<subseteq> {KRead, KWrite}"
    "kinds a3 \<subseteq> {KCommit, KPush}" "kinds a4 \<subseteq> {KJob, KRemove, KCbk}"
    by simp_all
  have z: "cnt KCommit a1 = 0" "cnt KCommit a2 = 0" "cnt KCommit a4 = 0" "cnt KCommit k = 0"
    "cnt KPush a1 = 0" "cnt KPush a2 = 0" "cnt KPush a4 = 0" "cnt KPush k = 0"
    using ks k by (auto intro!: cnt_zero)
  have tc: "n_calls KCommit r = cnt KCommit a3" and tp: "n_calls KPush r = cnt KPush a3"
    by (simp_all add: n_calls_cnt calls z)
  from p(9) have g12: "cnt KCommit a3 \<le> 1" "cnt KPush a3 \<le> 1" by simp_all
  note g3 = p(10) and g4 = p(11) and g5 = p(12)
  from p(14) have g6: "clean a1 \<longrightarrow> a2 \<noteq> []" by simp
  have gate: "(0 < n_calls KPush r \<longleftrightarrow> commit_flag r \<or> full_flag r) \<and>
      (0 < n_calls KCommit r \<longleftrightarrow> commit_flag r)" if nt: "\<not> threw_before_push r"
  proof -
    let ?K = "{KGit, KNewBranch, KRead, KWrite, KCommit}"
    from nt have all: "\<forall>x \<in> set (calls r). kind_of (fst x) \<in> ?K \<longrightarrow> snd x = None"
      by (auto simp: threw_before_push_def)
    have "kinds a1 \<subseteq> ?K" "kinds a2 \<subseteq> ?K" using ks by auto
    with all have c12: "clean a1" "clean a2"
      by (auto intro!: clean_by_kinds simp: calls)
    with g6 have ne: "a2 \<noteq> []" by simp
    from c12 ne g5 have c: "KCommit \<in> kinds a3 \<longleftrightarrow> commitNeeded s"
      and p: "okk KCommit a3 \<or> \<not> commitNeeded s \<longrightarrow>
           (KPush \<in> kinds a3 \<longleftrightarrow> commitNeeded s \<or> fullDeploymentNeeded s)"
      by simp_all
    have "okk KCommit a3" if "commitNeeded s"
    proof (rule okk_by_kind)
      from that c show "KCommit \<in> kinds a3" by simp
      from all show "\<forall>x \<in> set a3. kind_of (fst x) = KCommit \<longrightarrow> snd x = None"
        by (simp add: calls)
    qed
    with p have "KPush \<in> kinds a3 \<longleftrightarrow> commitNeeded s \<or> fullDeploymentNeeded s" by blast
    with c show ?thesis by (simp add: tc tp cnt_pos flags)
  qed
  from g12 g3 g4 gate show ?thesis by (simp add: tc tp cnt_pos flags)
qed

theorem commit_and_push_gates_witness:
  "runModify env0 ev_ntp (w_ok pf_old) \<noteq> None \<and>
   (let r = the (runModify env0 ev_ntp (w_ok pf_old))
    in \<not> threw_before_push r \<and> n_calls KCommit r = 1 \<and> n_calls KPush r = 1 \<and>
       commit_flag r \<and> \<not> full_flag r)"
  using commit_and_push_gates [OF run_rewrite]
  by (simp add: run_rewrite obs_defs)

text \<open>
  C2, as amended. \<^verbatim>\<open>commitNeeded\<close> implies that the Puppetfile was rewritten in this
  run or that the branch was missing on the remote and was created (line 76 sets the
  flag then, whatever the Puppetfile holds).
\<close>

theorem commit_needs_write_or_new_branch:
  assumes "runModify env ev w = Some r" and "commit_flag r"
  shows "succeeded KWrite r \<or> succeeded KNewBranch r"
proof -
  from assms(1) obtain rx rt s a1 a2 a3 a4 k where
    post: "try_post env ev rx w rt s a1 a2 a3 a4" and
    calls: "calls r = a1 @ a2 @ a3 @ a4 @ k" and
    flags: "full_flag r = fullDeploymentNeeded s" "commit_flag r = commitNeeded s"
    by (rule run_sum)
  from try_postD(7) [OF post] assms(2) flags show ?thesis
    by (auto simp: succeeded_okk calls)
qed

theorem commit_needs_write_or_new_branch_witness:
  "runModify env0 ev_ntp (w_new pf_feat) \<noteq> None \<and>
   runModify env0 ev_ntp (w_ok pf_old) \<noteq> None \<and>
   (let r = the (runModify env0 ev_ntp (w_new pf_feat));
        r' = the (runModify env0 ev_ntp (w_ok pf_old))
    in commit_flag r \<and> succeeded KNewBranch r \<and> \<not> succeeded KWrite r \<and>
       commit_flag r' \<and> succeeded KWrite r' \<and> \<not> succeeded KNewBranch r')"
  using commit_needs_write_or_new_branch [OF run_new_branch]
    commit_needs_write_or_new_branch [OF run_rewrite]
  by (simp add: run_new_branch run_rewrite obs_defs)

text \<open>
  C2 fails as stated: with the branch missing on the remote and a Puppetfile that
  already names the branch, \<^verbatim>\<open>commitNeeded\<close> is true and a commit is made, and the
  Puppetfile was never written.
\<close>

theorem commit_without_rewrite:
  "map_option (\<lambda>r. (commit_flag r, n_calls KWrite r, n_calls KCommit r))
     (runModify env0 ev_ntp (w_new pf_feat)) = Some (True, 0, 1)"
  by (simp add: run_new_branch obs_defs)

text \<open>
  C5. In a run where the branch is missing on the remote (and the clone, the fetch and
  the creation of the branch return) the branch is created and both
  \<^verbatim>\<open>fullDeploymentNeeded\<close> and \<^verbatim>\<open>commitNeeded\<close> are true, whatever the Puppetfile
  holds; when the Puppetfile can be read (and written, where it needs a rewrite) the
  commit is made, and the push after a commit that returns.
\<close>

theorem new_branch_forces_commit:
  assumes "runModify env ev w = Some r" and "module_regex (repourl ev) = Some rx"
    and "new_branch_world w"
  shows "succeeded KNewBranch r \<and> full_flag r \<and> commit_flag r \<and>
         (update_returns env ev rx w \<longrightarrow>
            n_calls KCommit r = 1 \<and> (commit_res w = None \<longrightarrow> n_calls KPush r = 1))"
proof -
  from assms(1) obtain rx' rt s a1 a2 a3 a4 k where
    rx': "module_regex (repourl ev) = Some rx'" and
    post': "try_post env ev rx' w rt s a1 a2 a3 a4" and
    calls: "calls r = a1 @ a2 @ a3 @ a4 @ k" and
    flags: "full_flag r = fullDeploymentNeeded s" "commit_flag r = commitNeeded s" and
    k: "kinds k \<subseteq> {KChdir, KRemove, KCbk}"
    by (rule run_sum)
  from rx' assms(2) post' have post: "try_post env ev rx w rt s a1 a2 a3 a4" by simp
  note p = try_postD [OF post]
  from p(2,3) have ks: "kinds a1 \<subseteq> {KGit, KNewBranch}" "kinds a2 \<subseteq> {KRead, KWrite}"
    "kinds a3 \<subseteq> {KCommit, KPush}" "kinds a4 \<subseteq> {KJob, KRemove, KCbk}"
    by simp_all
  have z: "cnt KCommit a1 = 0" "cnt KCommit a2 = 0" "cnt KCommit a4 = 0" "cnt KCommit k = 0"
    "cnt KPush a1 = 0" "cnt KPush a2 = 0" "cnt KPush a4 = 0" "cnt KPush k = 0"
    using ks k by (auto intro!: cnt_zero)
  have tc: "n_calls KCommit r = cnt KCommit a3" and tp: "n_calls KPush r = cnt KPush a3"
    by (simp_all add: n_calls_cnt calls z)
  from p(5) assms(3) have nb1: "okk KNewBranch a1" by simp
  with p(6,7) have nb2: "fullDeploymentNeeded s" "commitNeeded s" by simp_all
  from p(14) assms(3) have nb3: "clean a1" "a2 \<noteq> []" by simp_all
  note nb = nb1 nb2 nb3(1)
  from p(9) have g12: "cnt KCommit a3 \<le> 1" "cnt KPush a3 \<le> 1" by simp_all
  have "n_calls KCommit r = 1 \<and> (commit_res w = None \<longrightarrow> n_calls KPush r = 1)"
    if ur: "update_returns env ev rx w"
  proof -
    from ur nb3 p(15) have "clean (a1 @ a2)" "a2 \<noteq> []" by simp_all
    with p(12) nb2 have c: "KCommit \<in> kinds a3"
      and pu: "okk KCommit a3 \<longrightarrow> KPush \<in> kinds a3" by simp_all
    from c g12(1) have "cnt KCommit a3 = 1" using cnt_pos [of KCommit a3] by simp
    moreover have "cnt KPush a3 = 1" if "commit_res w = None"
    proof -
      from that c p(16) pu have "KPush \<in> kinds a3" by simp
      with g12(2) show ?thesis using cnt_pos [of KPush a3] by simp
    qed
    ultimately show ?thesis by (simp add: tc tp)
  qed
  with nb show ?thesis by (simp add: succeeded_okk calls flags)
qed

theorem new_branch_forces_commit_witness:
  "new_branch_world (w_new pf_feat) \<and> update_returns env0 ev_ntp rx_ntp (w_new pf_feat) \<and>
   commit_res (w_new pf_feat) = None \<and> runModify env0 ev_ntp (w_new pf_feat) \<noteq> None \<and>
   (let r = the (runModify env0 ev_ntp (w_new pf_feat))
    in succeeded KNewBranch r \<and> full_flag r \<and> commit_flag r \<and>
       n_calls KCommit r = 1 \<and> n_calls KPush r = 1 \<and> n_calls KWrite r = 0)"
proof -
  have nb: "new_branch_world (w_new pf_feat)"
    by (simp add: new_branch_world_def w_new_def w_ok_def)
  have ur: "update_returns env0 ev_ntp rx_ntp (w_new pf_feat)"
    by (simp add: update_returns_def w_new_def w_ok_def new_content_feat)
  have cr: "commit_res (w_new pf_feat) = None"
    by (simp add: w_new_def w_ok_def)
  from new_branch_forces_commit [OF run_new_branch module_regex_ntp nb] nb ur cr
  show ?thesis by (simp add: run_new_branch n_calls_def succeeded_def)
qed

text \<open>
  C6. When the reference of the first match equals the resolved branch name or
  \<^verbatim>\<open>production\<close>, nothing is assigned to \<^verbatim>\<open>new_content\<close>, the run never writes
  the Puppetfile, and \<^verbatim>\<open>commitNeeded\<close> is true only when the branch had to be
  created: it stays false when the branch exists on the remote.
\<close>

theorem up_to_date_reference_no_write:
  assumes "runModify env ev w = Some r" and "module_regex (repourl ev) = Some rx"
    and "readFile_res w = Inr content" and "exec rx content = Some h"
    and "cap2 h = puppetfileBranchName env ev \<or> cap2 h = ''production''"
  shows "new_content env ev rx content = None \<and> n_calls KWrite r = 0 \<and>
         (commit_flag r \<longleftrightarrow> new_branch_world w) \<and>
         (branchExist_res w = Inr True \<longrightarrow> \<not> commit_flag r)"
proof -
  from assms(4,5) have nc: "new_content env ev rx content = None"
    by (auto simp: new_content_def)
  with assms(3) have nr: "no_rewrite env ev rx w" by (auto simp: no_rewrite_def)
  from assms(1) obtain rx' rt s a1 a2 a3 a4 k where
    rx': "module_regex (repourl ev) = Some rx'" and
    post': "try_post env ev rx' w rt s a1 a2 a3 a4" and
    calls: "calls r = a1 @ a2 @ a3 @ a4 @ k" and
    flags: "full_flag r = fullDeploymentNeeded s" "commit_flag r = commitNeeded s" and
    k: "kinds k \<subseteq> {KChdir, KRemove, KCbk}"
    by (rule run_sum)
  from rx' assms(2) post' have post: "try_post env ev rx w rt s a1 a2 a3 a4" by simp
  note p = try_postD [OF post]
  from p(2,3) have ks: "kinds a1 \<subseteq> {KGit, KNewBranch}" "kinds a2 \<subseteq> {KRead, KWrite}"
    "kinds a3 \<subseteq> {KCommit, KPush}" "kinds a4 \<subseteq> {KJob, KRemove, KCbk}"
    by simp_all
  from p(8) nr have w2: "KWrite \<notin> kinds a2" by simp
  have "cnt KWrite a1 = 0" "cnt KWrite a2 = 0" "cnt KWrite a3 = 0" "cnt KWrite a4 = 0"
    "cnt KWrite k = 0"
    using ks k w2 by (auto intro!: cnt_zero)
  then have tw: "n_calls KWrite r = 0" by (simp add: n_calls_cnt calls)
  from w2 have "\<not> okk KWrite a2" using okk_kinds by blast
  with p(5,7) have cf: "commit_flag r \<longleftrightarrow> new_branch_world w"
    by (simp add: flags)
  have "\<not> new_branch_world w" if "branchExist_res w = Inr True"
    using that by (simp add: new_branch_world_def)
  with nc tw cf show ?thesis by simp
qed

theorem up_to_date_reference_no_write_witness:
  "readFile_res (w_ok pf_feat) = Inr pf_feat \<and> exec rx_ntp pf_feat \<noteq> None \<and>
   cap2 (the (exec rx_ntp pf_feat)) = puppetfileBranchName env0 ev_ntp \<and>
   branchExist_res (w_ok pf_feat) = Inr True \<and>
   new_content env0 ev_ntp rx_ntp pf_feat = None \<and>
   runModify env0 ev_ntp (w_ok pf_feat) \<noteq> None \<and>
   (let r = the (runModify env0 ev_ntp (w_ok pf_feat))
    in n_calls KWrite r = 0 \<and> \<not> commit_flag r)"
proof -
  have rd: "readFile_res (w_ok pf_feat) = Inr pf_feat"
    and be: "branchExist_res (w_ok pf_feat) = Inr True"
    by (simp_all add: w_ok_def)
  from up_to_date_reference_no_write [OF run_steady module_regex_ntp rd exec_feat] rd be
  show ?thesis by (simp add: run_steady exec_feat ev_ntp_fields n_calls_def)
qed

text \<open>
  C9, as amended. In a run whose cleanup returns (\<^verbatim>\<open>process.chdir\<close> and the
  \<^verbatim>\<open>fse.remove\<close> of the \<^verbatim>\<open>catch\<close>) and whose callback returns, nothing leaves the
  generator uncaught, the callback is called once, and it is called right after a
  removal of the clone that returned. After a run without a failure it is called with
  \<^verbatim>\<open>null\<close>; otherwise with the error of the one call that threw, after the working
  directory was restored.
\<close>

theorem cleanup_then_single_report:
  assumes "runModify env ev w = Some r" and "chdir_res w = None"
    and "remove_catch_res w = None" and "cbk_res w = (\<lambda>_. None)"
  shows "uncaught r = None \<and> n_calls KCbk r = 1 \<and>
         (\<exists>t x. calls r = t @ [(Remove (gitdir env), None), (Cbk x, None)] \<and>
            (case x of
               None \<Rightarrow> clean t
             | Some e \<Rightarrow> \<exists>t0 a. t = t0 @ [(a, Some e), (Chdir (cwd env), None)] \<and> clean t0))"
proof -
  from assms(1) obtain rx rt s a1 a2 a3 a4 k where
    post: "try_post env ev rx w rt s a1 a2 a3 a4" and
    calls: "calls r = a1 @ a2 @ a3 @ a4 @ k" and
    k: "kinds k \<subseteq> {KChdir, KRemove, KCbk}" and
    ok: "rt = Inr () \<longrightarrow> k = [] \<and> uncaught r = None" and
    ko: "\<forall>err. rt = Inl err \<longrightarrow> k \<noteq> [] \<and>
       (chdir_res w = None \<and> remove_catch_res w = None \<longrightarrow>
          k = [(Chdir (cwd env), None), (Remove (gitdir env), None),
               (Cbk (Some err), cbk_res w (Some err))] \<and>
          uncaught r = cbk_res w (Some err)) \<and>
       (chdir_res w \<noteq> None \<or> remove_catch_res w \<noteq> None \<longrightarrow>
          KCbk \<notin> kinds k \<and> \<not> okk KRemove k \<and> uncaught r \<noteq> None)"
    by (rule run_sum)
  note p = try_postD [OF post]
  from p(2,3) have ks: "kinds a1 \<subseteq> {KGit, KNewBranch}" "kinds a2 \<subseteq> {KRead, KWrite}"
    "kinds a3 \<subseteq> {KCommit, KPush}" by simp_all
  note sh = p(4) and a4 = p(18) and nocb = p(19)
  have z: "cnt KCbk a1 = 0" "cnt KCbk a2 = 0" "cnt KCbk a3 = 0"
    using ks by (auto intro!: cnt_zero)
  show ?thesis
  proof (cases rt)
    case (Inr u)
    with ok a4 have k0: "k = []" "uncaught r = None"
      and a4': "a4 = [(RunJob (rundeck env ev
                 (if fullDeploymentNeeded s then deploy_env else deploy_mod)), None),
              (Remove (gitdir env), None), (Cbk None, None)]" by simp_all
    from sh Inr have cl: "clean (a1 @ a2 @ a3 @ a4)" by (simp add: shape_def)
    let ?t = "a1 @ a2 @ a3 @ [(RunJob (rundeck env ev
                 (if fullDeploymentNeeded s then deploy_env else deploy_mod)), None)]"
    have "calls r = ?t @ [(Remove (gitdir env), None), (Cbk None, None)]"
      by (simp add: calls k0 a4')
    moreover from cl have "clean ?t" by (simp add: a4')
    ultimately have "\<exists>t x. calls r = t @ [(Remove (gitdir env), None), (Cbk x, None)] \<and>
            (case x of
               None \<Rightarrow> clean t
             | Some e \<Rightarrow> \<exists>t0 a. t = t0 @ [(a, Some e), (Chdir (cwd env), None)] \<and> clean t0)"
      by (intro exI [of _ ?t] exI [of _ None]) simp
    moreover have "n_calls KCbk r = 1" by (simp add: n_calls_cnt calls z k0 a4')
    ultimately show ?thesis using k0 by simp
  next
    case (Inl err)
    with ko assms(2-4) have k': "k = [(Chdir (cwd env), None), (Remove (gitdir env), None),
               (Cbk (Some err), None)]" and unc: "uncaught r = None" by simp_all
    from nocb Inl assms(4) have "KCbk \<notin> kinds a4" by auto
    then have z4: "cnt KCbk a4 = 0" by (rule cnt_zero)
    let ?T = "a1 @ a2 @ a3 @ a4"
    from sh Inl have T: "?T \<noteq> []" "snd (last ?T) = Some err" "clean (butlast ?T)"
      by (simp_all add: shape_def)
    from T(1,2) have lastT: "?T = butlast ?T @ [(fst (last ?T), Some err)]"
      by (metis append_butlast_last_id prod.collapse)
    let ?t = "butlast ?T @ [(fst (last ?T), Some err), (Chdir (cwd env), None)]"
    have "calls r = ?T @ k" by (simp add: calls)
    also have "\<dots> = (butlast ?T @ [(fst (last ?T), Some err)]) @ k" using lastT by simp
    also have "\<dots> = ?t @ [(Remove (gitdir env), None), (Cbk (Some err), None)]" by (simp add: k')
    finally have c: "calls r = ?t @ [(Remove (gitdir env), None), (Cbk (Some err), None)]" .
    from c T(3) have "\<exists>t x. calls r = t @ [(Remove (gitdir env), None), (Cbk x, None)] \<and>
            (case x of
               None \<Rightarrow> clean t
             | Some e \<Rightarrow> \<exists>t0 a. t = t0 @ [(a, Some e), (Chdir (cwd env), None)] \<and> clean t0)"
      by (intro exI [of _ ?t] exI [of _ "Some err"]) auto
    moreover have "n_calls KCbk r = 1" by (simp add: n_calls_cnt calls z z4 k')
    ultimately show ?thesis using unc by simp
  qed
qed

theorem cleanup_then_single_report_witness:
  "chdir_res w_clone_fails = None \<and> remove_catch_res w_clone_fails = None \<and>
   cbk_res w_clone_fails = (\<lambda>_. None) \<and> runModify env0 ev_ntp w_clone_fails \<noteq> None \<and>
   (let r = the (runModify env0 ev_ntp w_clone_fails)
    in uncaught r = None \<and> n_calls KCbk r = 1 \<and>
       calls r =
         [(Clone (gitdir env0) ''git@host:puppetfile'', Some (Error ''clone'')),
          (Chdir (cwd env0), None)] @
         [(Remove (gitdir env0), None), (Cbk (Some (Error ''clone'')), None)])"
proof -
  have w: "chdir_res w_clone_fails = None" "remove_catch_res w_clone_fails = None"
    "cbk_res w_clone_fails = (\<lambda>_. None)"
    by (simp_all add: w_clone_fails_def w_ok_def)
  from cleanup_then_single_report [OF run_clone_fails w] w
  show ?thesis by (simp add: run_clone_fails n_calls_def)
qed

text \<open>
  C9 fails as stated: when the clone fails and the removal in the \<^verbatim>\<open>catch\<close> fails
  too, the callback is never called, the error of the removal leaves the generator in
  place of the error of the clone, and no removal of the clone has returned.
\<close>

theorem cleanup_failure_masks_error:
  "map_option (\<lambda>r. (uncaught r, n_calls KCbk r, succeeded KRemove r, map snd (calls r)))
     (runModify env0 ev_ntp w_cleanup_fails) =
   Some (Some (Error ''rm''), 0, False, [Some (Error ''clone''), None, Some (Error ''rm'')])"
  by (simp add: run_cleanup_fails obs_defs)

subsection \<open>Claims on the Puppetfile\<close>




text \<open>
  C4. The updater is to leave alone every entry whose repository URL differs from the
  URL of the event, also when one URL is part of the other. The code does not: for an
  event with the URL \<^verbatim>\<open>host/ntp\<close> and a Puppetfile that names only the module
  \<^verbatim>\<open>legacy\<close>, at the URL \<^verbatim>\<open>otherhost/ntp\<close> and the reference \<^verbatim>\<open>v1\<close>, the
  pattern finds a match that begins inside the URL of \<^verbatim>\<open>legacy\<close>, and the reference
  of \<^verbatim>\<open>legacy\<close> is rewritten to the branch of the event. Line 47 pastes the URL into
  the pattern with nothing that ties its left end to the opening quote, while line 89
  writes the same URL between quotes.
\<close>

theorem other_url_entry_rewritten:
  "repourl ev_host = ''host/ntp'' \<and> branch ev_host = ''feat'' \<and>
   map_option (\<lambda>h. (before h, take 9 (cap1 h), cap2 h))
     (exec rx_host (pf_entry ''legacy'' ''otherhost/ntp'' ''v1'')) =
     Some (''mod \"legacy\",'' @ [CHR 0x0A] @ ''  :git => \"other'', ''host/ntp\"'', ''v1'') \<and>
   new_content env0 ev_host rx_host (pf_entry ''legacy'' ''otherhost/ntp'' ''v1'') =
     Some (pf_entry ''legacy'' ''otherhost/ntp'' ''feat'')"
  by (simp add: eval_defs)

text \<open>
  C7, as amended. When the reference of the first match differs from the resolved branch
  name and from \<^verbatim>\<open>production\<close>, and the branch name of the event has no dollar sign,
  the text before the match and the first and third captures stand as they were, the
  reference (not empty, without a quote, between two quotes) is replaced by the branch
  name of the event, and the text after the match goes through the same replacement:
  it stands as it was when it holds no further match. When the Puppetfile is read and
  the write returns, the step returns with \<^verbatim>\<open>commitNeeded\<close> set.
\<close>

theorem mismatched_reference_rewritten:
  assumes "module_regex (repourl ev) = Some rx" and "exec rx content = Some h"
    and "cap2 h \<noteq> puppetfileBranchName env ev" and "cap2 h \<noteq> ''production''"
    and "CHR ''$'' \<notin> set (branch ev)"
  shows "content = before h @ cap1 h @ cap2 h @ cap3 h @ after h \<and>
         new_content env ev rx content =
           Some (before h @ cap1 h @ branch ev @ cap3 h @
                 replace_from rx (''$1'' @ branch ev @ ''$3'') (before h @ matched h) (after h)) \<and>
         (exec_from rx (before h @ matched h) (after h) = None \<longrightarrow>
            new_content env ev rx content =
              Some (before h @ cap1 h @ branch ev @ cap3 h @ after h)) \<and>
         cap2 h \<noteq> [] \<and> \<not> (\<exists>x \<in> set (cap2 h). is_quote x) \<and>
         is_quote (last (cap1 h)) \<and> is_quote (hd (cap3 h)) \<and>
         (readFile_res w = Inr content \<and> writeFile_res w = None \<longrightarrow>
            fst (update_puppetfile env ev rx w s) = Inr () \<and>
            commitNeeded (snd (update_puppetfile env ev rx w s)))"
proof -
  let ?tmpl = "''$1'' @ branch ev @ ''$3''"
  from assms(2) have e: "exec_from rx [] content = Some h" by (simp add: exec_def)
  note sh = hit_shape [OF assms(1) e]
  from exec_from_split [OF e] have c: "content = before h @ cap1 h @ cap2 h @ cap3 h @ after h"
    by (auto simp: matched_def)
  have "js_replace content rx ?tmpl =
      before h @ get_substitution h ?tmpl @ replace_from rx ?tmpl (before h @ matched h) (after h)"
    unfolding js_replace_def using replace_from_hit [OF e sh(11), of ?tmpl] by simp
  with subst_template [OF assms(5), of h]
  have j: "js_replace content rx ?tmpl =
      before h @ cap1 h @ branch ev @ cap3 h @
      replace_from rx ?tmpl (before h @ matched h) (after h)" by simp
  from assms(2-4) have n0: "new_content env ev rx content = Some (js_replace content rx ?tmpl)"
    by (simp add: new_content_def)
  with j have n: "new_content env ev rx content =
           Some (before h @ cap1 h @ branch ev @ cap3 h @
                 replace_from rx ?tmpl (before h @ matched h) (after h))" by simp
  have n': "new_content env ev rx content =
              Some (before h @ cap1 h @ branch ev @ cap3 h @ after h)"
    if "exec_from rx (before h @ matched h) (after h) = None"
    using n replace_from_none [OF that, of ?tmpl] by simp
  have u: "fst (update_puppetfile env ev rx w s) = Inr () \<and>
            commitNeeded (snd (update_puppetfile env ev rx w s))"
    if "readFile_res w = Inr content \<and> writeFile_res w = None"
    using that n0 by (simp add: update_puppetfile_eq)
  from sh(6) have nq: "\<not> (\<exists>x \<in> set (cap2 h). is_quote x)" by blast
  from c n n' sh(5) nq sh(4) sh(8) u show ?thesis by blast
qed

theorem mismatched_reference_rewritten_witness:
  "module_regex (repourl ev_ntp) = Some rx_ntp \<and> exec rx_ntp pf_old = Some h_old \<and>
   cap2 h_old \<noteq> puppetfileBranchName env0 ev_ntp \<and> cap2 h_old \<noteq> ''production'' \<and>
   CHR ''$'' \<notin> set (branch ev_ntp) \<and>
   exec_from rx_ntp (before h_old @ matched h_old) (after h_old) = None \<and>
   readFile_res (w_ok pf_old) = Inr pf_old \<and> writeFile_res (w_ok pf_old) = None \<and>
   new_content env0 ev_ntp rx_ntp pf_old =
     Some (before h_old @ cap1 h_old @ branch ev_ntp @ cap3 h_old @ after h_old) \<and>
   before h_old @ cap1 h_old @ branch ev_ntp @ cap3 h_old @ after h_old = pf_feat \<and>
   commitNeeded (snd (update_puppetfile env0 ev_ntp rx_ntp (w_ok pf_old) init))"
proof -
  have c: "cap2 h_old \<noteq> puppetfileBranchName env0 ev_ntp" "cap2 h_old \<noteq> ''production''"
    by (simp_all add: h_old_def ev_ntp_fields)
  have b: "CHR ''$'' \<notin> set (branch ev_ntp)"
    by (simp add: ev_ntp_fields)
  have w: "readFile_res (w_ok pf_old) = Inr pf_old \<and> writeFile_res (w_ok pf_old) = None"
    by (simp add: w_ok_def)
  have x: "exec_from rx_ntp (before h_old @ matched h_old) (after h_old) = None"
    by (simp add: h_old_def rx_ntp_def regex_defs)
  have f: "before h_old @ cap1 h_old @ branch ev_ntp @ cap3 h_old @ after h_old = pf_feat"
    by (simp add: h_old_def ev_ntp_fields pf_feat_def pf_entry_def)
  from mismatched_reference_rewritten [OF module_regex_ntp exec_old c b, of "w_ok pf_old" init]
    x w
  have "new_content env0 ev_ntp rx_ntp pf_old =
     Some (before h_old @ cap1 h_old @ branch ev_ntp @ cap3 h_old @ after h_old)"
    and "commitNeeded (snd (update_puppetfile env0 ev_ntp rx_ntp (w_ok pf_old) init))"
    by blast+
  with module_regex_ntp exec_old c b x w f show ?thesis by (intro conjI) blast+
qed

text \<open>
  C7 fails as stated: a second entry for the same URL, at \<^verbatim>\<open>production\<close>, is
  rewritten together with the first; and for the branch \<^verbatim>\<open>a$$b\<close> the reference
  written is \<^verbatim>\<open>a$b\<close>, not the name of the branch.
\<close>

theorem rewrite_not_literal_nor_local:
  "new_content env0 ev_ntp rx_ntp pf_pinned = Some (pf_feat @ pf_feat) \<and>
   branch ev_dollar = ''a$$b'' \<and>
   new_content env0 ev_dollar rx_ntp pf_old =
     Some (pf_entry ''ntp'' ''git@host:mod/ntp'' ''a$b'')"
  by (simp add: eval_defs)

text \<open>
  C8, as amended. A text that nowhere holds the URL of the event, read as a pattern,
  with a quote right after it (such a text has no entry for the URL) gives the pattern
  no match. When the pattern finds no match, the text read with exactly one entry of
  the documented shape appended (after a line feed) is assigned, its reference the
  branch name of the event, and once the Puppetfile is read and the write has returned
  the step returns with \<^verbatim>\<open>commitNeeded\<close> set. The rewrite of a reference that differs
  writes the branch name of the event too (one without a dollar sign).
\<close>

theorem missing_module_appended:
  assumes "module_regex (repourl ev) = Some rx"
  shows "(\<not> url_then_quote (repourl ev) content \<longrightarrow> exec rx content = None) \<and>
         (exec rx content = None \<longrightarrow>
            new_content env ev rx content = Some (content @ new_entry ev) \<and>
            new_entry ev = [CHR 0x0A] @ pf_entry (reponame ev) (repourl ev) (branch ev) \<and>
            (readFile_res w = Inr content \<and> writeFile_res w = None \<longrightarrow>
               fst (update_puppetfile env ev rx w s) = Inr () \<and>
               commitNeeded (snd (update_puppetfile env ev rx w s)))) \<and>
         (\<forall>h. exec rx content = Some h \<and> cap2 h \<noteq> puppetfileBranchName env ev \<and>
               cap2 h \<noteq> ''production'' \<and> CHR ''$'' \<notin> set (branch ev) \<longrightarrow>
            (\<exists>rest. new_content env ev rx content =
               Some (before h @ cap1 h @ branch ev @ cap3 h @ rest)))"
proof -
  have n: "exec rx content = None" if "\<not> url_then_quote (repourl ev) content"
  proof (cases "exec rx content")
    case None
    then show ?thesis .
  next
    case (Some h)
    then have "exec_from rx [] content = Some h" by (simp add: exec_def)
    from exec_from_url_then_quote [OF assms this] that show ?thesis by simp
  qed
  have a: "new_content env ev rx content = Some (content @ new_entry ev) \<and>
            new_entry ev = [CHR 0x0A] @ pf_entry (reponame ev) (repourl ev) (branch ev) \<and>
            (readFile_res w = Inr content \<and> writeFile_res w = None \<longrightarrow>
               fst (update_puppetfile env ev rx w s) = Inr () \<and>
               commitNeeded (snd (update_puppetfile env ev rx w s)))"
    if "exec rx content = None"
    using that by (simp add: new_content_def new_entry_def pf_entry_def update_puppetfile_eq)
  have b: "\<exists>rest. new_content env ev rx content =
               Some (before h @ cap1 h @ branch ev @ cap3 h @ rest)"
    if "exec rx content = Some h \<and> cap2 h \<noteq> puppetfileBranchName env ev \<and>
               cap2 h \<noteq> ''production'' \<and> CHR ''$'' \<notin> set (branch ev)" for h
  proof -
    let ?tmpl = "''$1'' @ branch ev @ ''$3''"
    from that have e: "exec_from rx [] content = Some h" by (simp add: exec_def)
    from that have d: "CHR ''$'' \<notin> set (branch ev)" by simp
    have "js_replace content rx ?tmpl =
        before h @ get_substitution h ?tmpl @
        replace_from rx ?tmpl (before h @ matched h) (after h)"
      unfolding js_replace_def
      using replace_from_hit [OF e hit_shape(11) [OF assms e], of ?tmpl] by simp
    with subst_template [OF d, of h]
    have "js_replace content rx ?tmpl =
        before h @ cap1 h @ branch ev @ cap3 h @
        replace_from rx ?tmpl (before h @ matched h) (after h)" by simp
    moreover from that have "new_content env ev rx content = Some (js_replace content rx ?tmpl)"
      by (simp add: new_content_def)
    ultimately show ?thesis by simp
  qed
  from n a b show ?thesis by blast
qed

theorem missing_module_appended_witness:
  "module_regex (repourl ev_ntp) = Some rx_ntp \<and>
   \<not> url_then_quote (repourl ev_ntp) pf_dns \<and> exec rx_ntp pf_dns = None \<and>
   readFile_res (w_ok pf_dns) = Inr pf_dns \<and> writeFile_res (w_ok pf_dns) = None \<and>
   new_content env0 ev_ntp rx_ntp pf_dns =
     Some (pf_dns @ [CHR 0x0A] @ pf_entry ''ntp'' ''git@host:mod/ntp'' ''feat'') \<and>
   fst (update_puppetfile env0 ev_ntp rx_ntp (w_ok pf_dns) init) = Inr () \<and>
   commitNeeded (snd (update_puppetfile env0 ev_ntp rx_ntp (w_ok pf_dns) init)) \<and>
   exec rx_ntp pf_old = Some h_old \<and> cap2 h_old \<noteq> puppetfileBranchName env0 ev_ntp \<and>
   cap2 h_old \<noteq> ''production'' \<and> CHR ''$'' \<notin> set (branch ev_ntp) \<and>
   (\<exists>rest. new_content env0 ev_ntp rx_ntp pf_old =
      Some (before h_old @ cap1 h_old @ branch ev_ntp @ cap3 h_old @ rest))"
proof -
  have u: "\<not> url_then_quote (repourl ev_ntp) pf_dns"
    by (simp add: ev_ntp_def pf_dns_def pf_entry_def starts_url_quote_def url_matches_def
        is_quote_def is_line_terminator_def)
  have w: "readFile_res (w_ok pf_dns) = Inr pf_dns \<and> writeFile_res (w_ok pf_dns) = None"
    by (simp add: w_ok_def)
  have ne: "new_entry ev_ntp = [CHR 0x0A] @ pf_entry ''ntp'' ''git@host:mod/ntp'' ''feat''"
    by (simp add: new_entry_def pf_entry_def ev_ntp_def)
  have c: "cap2 h_old \<noteq> puppetfileBranchName env0 ev_ntp" "cap2 h_old \<noteq> ''production''"
    by (simp_all add: h_old_def ev_ntp_fields)
  have b: "CHR ''$'' \<notin> set (branch ev_ntp)"
    by (simp add: ev_ntp_fields)
  note t = missing_module_appended [OF module_regex_ntp, of pf_dns env0 "w_ok pf_dns" init]
  from t u have x: "exec rx_ntp pf_dns = None" by blast
  from t x w have "new_content env0 ev_ntp rx_ntp pf_dns = Some (pf_dns @ new_entry ev_ntp)"
    and f: "fst (update_puppetfile env0 ev_ntp rx_ntp (w_ok pf_dns) init) = Inr ()"
    and k: "commitNeeded (snd (update_puppetfile env0 ev_ntp rx_ntp (w_ok pf_dns) init))"
    by blast+
  with ne have n: "new_content env0 ev_ntp rx_ntp pf_dns =
      Some (pf_dns @ [CHR 0x0A] @ pf_entry ''ntp'' ''git@host:mod/ntp'' ''feat'')"
    by (simp only:)
  from missing_module_appended [OF module_regex_ntp, of pf_old env0 "w_ok pf_old" init]
    exec_old c b
  have r: "\<exists>rest. new_content env0 ev_ntp rx_ntp pf_old =
      Some (before h_old @ cap1 h_old @ branch ev_ntp @ cap3 h_old @ rest)"
    by blast
  from module_regex_ntp u x w n f k exec_old c b r show ?thesis by (intro conjI) blast+
qed

text \<open>
  C8 fails as stated, in both parts. A Puppetfile that names only the module
  \<^verbatim>\<open>legacy\<close>, at \<^verbatim>\<open>otherhost/ntp\<close>, has no entry for the URL \<^verbatim>\<open>host/ntp\<close>, and
  yet nothing is appended for an event with that URL: the entry of \<^verbatim>\<open>legacy\<close> is
  rewritten. And with the default branch \<^verbatim>\<open>main\<close> and an event on \<^verbatim>\<open>production\<close>
  the resolved name is \<^verbatim>\<open>main\<close>, and the rewrite of an entry at \<^verbatim>\<open>old\<close> writes
  \<^verbatim>\<open>production\<close>: the append is not the only place where the name of the event is
  written.
\<close>

theorem append_missed_and_rewrite_writes_branch:
  "repourl ev_host = ''host/ntp'' \<and> branch ev_host = ''feat'' \<and>
   pf_other = pf_entry ''legacy'' ''otherhost/ntp'' ''v1'' \<and>
   new_content env0 ev_host rx_host pf_other \<noteq> Some (pf_other @ new_entry ev_host) \<and>
   new_content env0 ev_host rx_host pf_other =
     Some (pf_entry ''legacy'' ''otherhost/ntp'' ''feat'') \<and>
   puppetfileBranchName env_main ev_prod = ''main'' \<and> branch ev_prod = ''production'' \<and>
   map_option cap2 (exec rx_ntp pf_old) = Some ''old'' \<and>
   new_content env_main ev_prod rx_ntp pf_old =
     Some (pf_entry ''ntp'' ''git@host:mod/ntp'' ''production'')"
  by (simp add: eval_defs)

subsection \<open>The name of the clone\<close>

lemma digit_char_inj:
  "a < 10 \<Longrightarrow> b < 10 \<Longrightarrow> ''0123456789'' ! a = ''0123456789'' ! b \<Longrightarrow> a = b"
proof -
  have "distinct ''0123456789''" by simp
  moreover assume "a < 10" "b < 10" "''0123456789'' ! a = ''0123456789'' ! b"
  ultimately show "a = b" by (simp add: nth_eq_iff_index_eq)
qed

lemma digit_char_no_minus: "k < 10 \<Longrightarrow> ''0123456789'' ! k \<noteq> CHR ''-''"
proof -
  assume "k < 10"
  then have "''0123456789'' ! k \<in> set ''0123456789''" by (intro nth_mem) simp
  then show ?thesis by auto
qed

lemma digits_nonempty: "digits n \<noteq> []"
  by (subst digits.simps) simp

lemma digits_no_minus: "CHR ''-'' \<notin> set (digits n)"
proof (induction n rule: digits.induct)
  case (1 n)
  show ?case
  proof (cases "n < 10")
    case True
    then show ?thesis
      using digit_char_no_minus [of n] by (subst digits.simps) auto
  next
    case False
    with 1 have "CHR ''-'' \<notin> set (digits (n div 10))" by simp
    with False show ?thesis
      using digit_char_no_minus [of "n mod 10"] by (subst digits.simps) auto
  qed
qed

lemma digits_inj: "digits m = digits n \<Longrightarrow> m = n"
proof (induction m arbitrary: n rule: digits.induct)
  case (1 m)
  show ?case
  proof (cases "m < 10")
    case True
    show ?thesis
    proof (cases "n < 10")
      case n: True
      from 1(2) True n have "''0123456789'' ! m = ''0123456789'' ! n"
        by (simp add: digits.simps [of m] digits.simps [of n])
      with True n show ?thesis by (rule digit_char_inj)
    next
      case n: False
      from 1(2) True n have "[''0123456789'' ! m] = digits (n div 10) @ [''0123456789'' ! (n mod 10)]"
        by (simp add: digits.simps [of m] digits.simps [of n])
      then have "digits (n div 10) = []" by simp
      then show ?thesis by (simp add: digits_nonempty)
    qed
  next
    case False
    show ?thesis
    proof (cases "n < 10")
      case n: True
      from 1(2) False n have "digits (m div 10) @ [''0123456789'' ! (m mod 10)] = [''0123456789'' ! n]"
        by (simp add: digits.simps [of m] digits.simps [of n])
      then have "digits (m div 10) = []" by simp
      then show ?thesis by (simp add: digits_nonempty)
    next
      case n: False
      from 1(2) False n
      have "digits (m div 10) @ [''0123456789'' ! (m mod 10)] =
            digits (n div 10) @ [''0123456789'' ! (n mod 10)]"
        by (simp add: digits.simps [of m] digits.simps [of n])
      then have a: "digits (m div 10) = digits (n div 10)"
        and b: "''0123456789'' ! (m mod 10) = ''0123456789'' ! (n mod 10)" by simp_all
      from 1(1) [OF False a] have "m div 10 = n div 10" .
      moreover from b have "m mod 10 = n mod 10" by (intro digit_char_inj) simp_all
      ultimately have "m div 10 * 10 + m mod 10 = n div 10 * 10 + n mod 10" by simp
      then show ?thesis by (simp only: div_mult_mod_eq)
    qed
  qed
qed

lemma number_to_string_inj: "number_to_string i = number_to_string j \<Longrightarrow> i = j"
proof -
  assume eq: "number_to_string i = number_to_string j"
  have hd_neq: "CHR ''-'' # xs \<noteq> digits k" for xs k
    using digits_no_minus [of k] by (metis list.set_intros(1))
  show "i = j"
  proof (cases "i < 0")
    case True
    show ?thesis
    proof (cases "j < 0")
      case j: True
      with True eq have "digits (nat (- i)) = digits (nat (- j))" by (simp add: number_to_string_def)
      then have "nat (- i) = nat (- j)" by (rule digits_inj)
      with True j show ?thesis by simp
    next
      case j: False
      with True eq show ?thesis using hd_neq by (simp add: number_to_string_def)
    qed
  next
    case False
    show ?thesis
    proof (cases "j < 0")
      case j: True
      with False eq show ?thesis using hd_neq [symmetric] by (simp add: number_to_string_def) 
    next
      case j: False
      with False eq have "digits (nat i) = digits (nat j)" by (simp add: number_to_string_def)
      then have "nat i = nat j" by (rule digits_inj)
      with False j show ?thesis by simp
    qed
  qed
qed

text \<open>
  C10, as amended. The name of the clone is a function of the clock reading alone:
  two runs get distinct names exactly when their readings of \<^verbatim>\<open>Date.now()\<close> differ.
\<close>

theorem gitdir_distinct_iff:
  "gitdir env1 = gitdir env2 \<longleftrightarrow> date_now env1 = date_now env2"
  by (auto simp: gitdir_def dest: number_to_string_inj)

text \<open>
  C10 fails as stated: two runs of the same millisecond, for different modules, both
  clone into \<^verbatim>\<open>/var/tmp/puppetfile_repo_1478160000000\<close>.
\<close>

theorem same_millisecond_same_gitdir:
  "map_option (\<lambda>r. fst (hd (calls r))) (runModify env0 ev_ntp w_clone_fails) =
     Some (Clone ''/var/tmp/puppetfile_repo_1478160000000'' ''git@host:puppetfile'') \<and>
   map_option (\<lambda>r. fst (hd (calls r))) (runModify env0 ev_dns w_clone_fails) =
     Some (Clone ''/var/tmp/puppetfile_repo_1478160000000'' ''git@host:puppetfile'')"
  by (simp add: run_defs regex_defs sample_defs local_defs)

end
